theory Spec2Isabelle
  imports Main "HOL-Library.Word"
begin

unbundle bit_operations_syntax

section \<open>Canonical create-token request encoding (frontend/app/page.tsx)\<close>

text \<open>
  The encoders of \<^verbatim>\<open>src/frontend/app/page.tsx\<close> are pure functions over strings,
  numbers, bigints and byte arrays. A \<^verbatim>\<open>Uint8Array\<close> is a list of 8-bit words, a
  JavaScript \<^verbatim>\<open>bigint\<close> is an \<open>int\<close>, a thrown \<^verbatim>\<open>Error\<close> is the left summand of a sum.

  Strings are lists of \<open>char\<close>: one \<open>char\<close> is one UTF-16 code unit in the range
  U+0000 to U+00FF. Strings with code units above U+00FF are outside the model. Within
  that range the platform functions the source calls (\<^verbatim>\<open>trim\<close>, \<^verbatim>\<open>toLowerCase\<close>,
  \<^verbatim>\<open>TextEncoder.encode\<close>, \<^verbatim>\<open>Number.parseInt\<close>, \<^verbatim>\<open>BigInt\<close>) are written out after
  ECMAScript and the Encoding standard.
\<close>

type_synonym byte = "8 word"

datatype error =
    InvalidHexLength         \<comment> \<open>\<^verbatim>\<open>Invalid hex string length\<close>\<close>
  | NegativeAmount           \<comment> \<open>\<^verbatim>\<open>Amount cannot be negative\<close>\<close>
  | TooManyDecimals          \<comment> \<open>\<^verbatim>\<open>Too many decimal places for Amount\<close>\<close>
  | InvalidAmountFormat      \<comment> \<open>the \<^verbatim>\<open>SyntaxError\<close> of \<^verbatim>\<open>BigInt(digits)\<close>\<close>
  | UnsupportedOwnerLength   \<comment> \<open>\<^verbatim>\<open>Owner must be 20-byte or 32-byte hex\<close>\<close>
  | InvalidSignatureLength   \<comment> \<open>\<^verbatim>\<open>EVM signature must be 65 bytes\<close>\<close>
  | InvalidAddressLength     \<comment> \<open>\<^verbatim>\<open>EVM address must be 20 bytes\<close>\<close>
  | WalletNotConnected       \<comment> \<open>\<^verbatim>\<open>Connect MetaMask first.\<close>\<close>

subsection \<open>Platform string functions\<close>

definition code_unit :: "char \<Rightarrow> nat" where
  "code_unit c = of_char c"

text \<open>ECMAScript \<^verbatim>\<open>WhiteSpace\<close> and \<^verbatim>\<open>LineTerminator\<close> below U+0100: TAB, LF, VT, FF, CR,
  SP and NBSP.\<close>

definition isWhiteSpace :: "char \<Rightarrow> bool" where
  "isWhiteSpace c = (code_unit c \<in> {9, 10, 11, 12, 13, 32, 160})"

definition trim :: "string \<Rightarrow> string" where
  "trim s = rev (dropWhile isWhiteSpace (rev (dropWhile isWhiteSpace s)))"

text \<open>\<^verbatim>\<open>toLowerCase\<close> below U+0100: A to Z, and U+00C0 to U+00DE except U+00D7, move up
  by 32; every other code unit is its own lower case.\<close>

definition lowerChar :: "char \<Rightarrow> char" where
  "lowerChar c =
     (let n = code_unit c
      in if (65 \<le> n \<and> n \<le> 90) \<or> (192 \<le> n \<and> n \<le> 222 \<and> n \<noteq> 215)
         then char_of (n + 32) else c)"

definition toLowerCase :: "string \<Rightarrow> string" where
  "toLowerCase s = map lowerChar s"

text \<open>\<^verbatim>\<open>s.replace(/^0x/, '')\<close>, \<^verbatim>\<open>s.replace(/^0x/i, '')\<close>, \<^verbatim>\<open>s.replace(/^\+/, '')\<close>,
  \<^verbatim>\<open>s.replace(/^0+/, '')\<close> and \<^verbatim>\<open>s.replace(/_/g, '')\<close>.\<close>

fun strip0x :: "string \<Rightarrow> string" where
  "strip0x (a # b # rest) = (if a = CHR ''0'' \<and> b = CHR ''x'' then rest else a # b # rest)"
| "strip0x s = s"

fun strip0x_i :: "string \<Rightarrow> string" where
  "strip0x_i (a # b # rest) =
     (if a = CHR ''0'' \<and> (b = CHR ''x'' \<or> b = CHR ''X'') then rest else a # b # rest)"
| "strip0x_i s = s"

fun stripPlus :: "string \<Rightarrow> string" where
  "stripPlus (a # rest) = (if a = CHR ''+'' then rest else a # rest)"
| "stripPlus [] = []"

definition stripLeadingZeros :: "string \<Rightarrow> string" where
  "stripLeadingZeros s = dropWhile (\<lambda>c. c = CHR ''0'') s"

definition stripUnderscores :: "string \<Rightarrow> string" where
  "stripUnderscores s = filter (\<lambda>c. c \<noteq> CHR ''_'') s"

text \<open>\<^verbatim>\<open>s.split('.')\<close>: the empty string splits into one empty segment.\<close>

fun split_dot :: "string \<Rightarrow> string list" where
  "split_dot [] = [[]]"
| "split_dot (c # cs) =
     (if c = CHR ''.'' then [] # split_dot cs
      else (case split_dot cs of
              seg # segs \<Rightarrow> (c # seg) # segs
            | [] \<Rightarrow> [[c]]))"

definition padEnd :: "string \<Rightarrow> nat \<Rightarrow> char \<Rightarrow> string" where
  "padEnd s n c = s @ replicate (n - length s) c"

definition padStart :: "string \<Rightarrow> nat \<Rightarrow> char \<Rightarrow> string" where
  "padStart s n c = replicate (n - length s) c @ s"

text \<open>\<^verbatim>\<open>s.slice(a, b)\<close> for \<open>0 \<le> a \<le> b\<close>.\<close>

definition slice_str :: "string \<Rightarrow> nat \<Rightarrow> nat \<Rightarrow> string" where
  "slice_str s a b = take (b - a) (drop a s)"

subsection \<open>Platform number parsing\<close>

text \<open>The value of a character as a digit: 0 to 9, then a to z in either case.
  Only radices up to 16 are used.\<close>

definition digitValue :: "char \<Rightarrow> nat option" where
  "digitValue c =
     (let n = code_unit c
      in if 48 \<le> n \<and> n \<le> 57 then Some (n - 48)
         else if 97 \<le> n \<and> n \<le> 102 then Some (n - 87)
         else if 65 \<le> n \<and> n \<le> 70 then Some (n - 55)
         else None)"

definition isDigitOf :: "nat \<Rightarrow> char \<Rightarrow> bool" where
  "isDigitOf radix c = (case digitValue c of None \<Rightarrow> False | Some d \<Rightarrow> d < radix)"

definition digitsValue :: "nat \<Rightarrow> string \<Rightarrow> int" where
  "digitsValue radix s =
     foldl (\<lambda>acc c. acc * int radix + (case digitValue c of None \<Rightarrow> 0 | Some d \<Rightarrow> int d)) 0 s"

text \<open>\<^verbatim>\<open>Number.parseInt(s, 16)\<close>: leading white space is skipped, one sign is read, one
  \<^verbatim>\<open>0x\<close> or \<^verbatim>\<open>0X\<close> is skipped, then the longest run of hexadecimal digits is the value;
  no digit at all is \<^verbatim>\<open>NaN\<close> (\<open>None\<close>).\<close>

definition parseInt16 :: "string \<Rightarrow> int option" where
  "parseInt16 str =
     (let s = dropWhile isWhiteSpace str;
          negative = (s \<noteq> [] \<and> hd s = CHR ''-'');
          s1 = (if s \<noteq> [] \<and> (hd s = CHR ''+'' \<or> hd s = CHR ''-'') then tl s else s);
          s2 = strip0x_i s1;
          z = takeWhile (isDigitOf 16) s2
      in if z = [] then None
         else Some ((if negative then -1 else 1) * digitsValue 16 z))"

text \<open>Storing a number into a \<^verbatim>\<open>Uint8Array\<close> slot (\<^verbatim>\<open>ToUint8\<close>): \<^verbatim>\<open>NaN\<close> is stored as 0,
  an integer modulo 256.\<close>

definition ToUint8 :: "int option \<Rightarrow> byte" where
  "ToUint8 v = (case v of None \<Rightarrow> 0 | Some n \<Rightarrow> word_of_int n)"

text \<open>\<^verbatim>\<open>BigInt(str)\<close> (\<^verbatim>\<open>StringToBigInt\<close>): white space is trimmed at both ends; the empty
  string is 0; \<^verbatim>\<open>0x\<close>, \<^verbatim>\<open>0o\<close> and \<^verbatim>\<open>0b\<close> (either case) introduce an unsigned literal of
  that radix; otherwise an optional sign and decimal digits. Anything else is a
  \<^verbatim>\<open>SyntaxError\<close> (\<open>None\<close>).\<close>

definition radixLiteral :: "nat \<Rightarrow> string \<Rightarrow> int option" where
  "radixLiteral radix ds =
     (if ds \<noteq> [] \<and> list_all (isDigitOf radix) ds then Some (digitsValue radix ds)
      else None)"

fun strIntegerLiteral :: "string \<Rightarrow> int option" where
  "strIntegerLiteral (a # b # rest) =
     (if a = CHR ''0'' \<and> (b = CHR ''x'' \<or> b = CHR ''X'') then radixLiteral 16 rest
      else if a = CHR ''0'' \<and> (b = CHR ''o'' \<or> b = CHR ''O'') then radixLiteral 8 rest
      else if a = CHR ''0'' \<and> (b = CHR ''b'' \<or> b = CHR ''B'') then radixLiteral 2 rest
      else if a = CHR ''+'' then radixLiteral 10 (b # rest)
      else if a = CHR ''-'' then map_option uminus (radixLiteral 10 (b # rest))
      else radixLiteral 10 (a # b # rest))"
| "strIntegerLiteral s = radixLiteral 10 s"

definition StringToBigInt :: "string \<Rightarrow> int option" where
  "StringToBigInt str = (let s = trim str in if s = [] then Some 0 else strIntegerLiteral s)"

definition BigInt :: "string \<Rightarrow> error + int" where
  "BigInt str = (case StringToBigInt str of None \<Rightarrow> Inl InvalidAmountFormat | Some n \<Rightarrow> Inr n)"

text \<open>\<^verbatim>\<open>TextEncoder.encode\<close>: UTF-8 of code units below U+0100, one byte below U+0080 and
  two bytes from there on.\<close>

definition utf8_unit :: "char \<Rightarrow> byte list" where
  "utf8_unit c =
     (let n = code_unit c
      in if n < 128 then [of_nat n] else [of_nat (192 + n div 64), of_nat (128 + n mod 64)])"

definition TEXT_ENCODER_encode :: "string \<Rightarrow> byte list" where
  "TEXT_ENCODER_encode s = concat (map utf8_unit s)"

subsection \<open>Constants\<close>

definition AMOUNT_DECIMALS :: nat where
  "AMOUNT_DECIMALS = 18"

definition CREATE_TOKEN_TYPE :: string where
  "CREATE_TOKEN_TYPE = ''CreateTokenRequest''"

subsection \<open>Primitive encoders\<close>

text \<open>\<^verbatim>\<open>result.set(chunk, offset)\<close> on a typed array that has room for the chunk.\<close>

definition set_chunk :: "byte list \<Rightarrow> byte list \<Rightarrow> nat \<Rightarrow> byte list" where
  "set_chunk result chunk offset =
     take offset result @ chunk @ drop (offset + length chunk) result"

definition concatBytes :: "byte list list \<Rightarrow> byte list" where
  "concatBytes chunks =
     (let len = foldl (\<lambda>sum chunk. sum + length chunk) 0 chunks;
          result = replicate len (0 :: byte)
      in fst (foldl (\<lambda>(result, offset) chunk.
                       (set_chunk result chunk offset, offset + length chunk))
                    (result, 0) chunks))"

text \<open>\<^verbatim>\<open>value.toString(16)\<close> of a non-negative integer.\<close>

definition hexChar :: "nat \<Rightarrow> char" where
  "hexChar d = ''0123456789abcdef'' ! d"

fun toString16 :: "nat \<Rightarrow> string" where
  "toString16 n = (if n < 16 then [hexChar n] else toString16 (n div 16) @ [hexChar (n mod 16)])"

declare toString16.simps [simp del]

definition bytesToHex :: "byte list \<Rightarrow> string" where
  "bytesToHex bytes = concat (map (\<lambda>value. padStart (toString16 (unat value)) 2 CHR ''0'') bytes)"

function hexToBytes_loop :: "string \<Rightarrow> nat \<Rightarrow> byte list \<Rightarrow> byte list" where
  "hexToBytes_loop normalized i bytes =
     (if i < length bytes
      then hexToBytes_loop normalized (i + 1)
             (bytes[i := ToUint8 (parseInt16 (slice_str normalized (i * 2) (i * 2 + 2)))])
      else bytes)"
  by pat_completeness auto
termination
  by (relation "measure (\<lambda>(normalized, i, bytes). length bytes - i)") auto

declare hexToBytes_loop.simps [simp del]

definition hexToBytes :: "string \<Rightarrow> error + byte list" where
  "hexToBytes hex =
     (let normalized = strip0x_i hex
      in if length normalized mod 2 \<noteq> 0 then Inl InvalidHexLength
         else Inr (hexToBytes_loop normalized 0 (replicate (length normalized div 2) 0)))"

text \<open>\<^verbatim>\<open>DataView.setUint32(0, value, true)\<close>: the value modulo \<open>2^32\<close>, low byte first.\<close>

definition encodeU32LE :: "nat \<Rightarrow> byte list" where
  "encodeU32LE v =
     (let w = (of_nat v :: 32 word)
      in [ucast w, ucast (drop_bit 8 w), ucast (drop_bit 16 w), ucast (drop_bit 24 w)])"

function encodeU128LE_loop :: "nat \<Rightarrow> int \<Rightarrow> byte list \<Rightarrow> byte list" where
  "encodeU128LE_loop i cursor bytes =
     (if i < 16
      then encodeU128LE_loop (i + 1) (drop_bit 8 cursor) (bytes[i := word_of_int (cursor AND 255)])
      else bytes)"
  by pat_completeness auto
termination
  by (relation "measure (\<lambda>(i, cursor, bytes). 16 - i)") auto

declare encodeU128LE_loop.simps [simp del]

definition encodeU128LE :: "int \<Rightarrow> byte list" where
  "encodeU128LE v = encodeU128LE_loop 0 v (replicate 16 0)"

definition encodeString :: "string \<Rightarrow> byte list" where
  "encodeString v =
     (let bytes = TEXT_ENCODER_encode v in concatBytes [encodeU32LE (length bytes), bytes])"

subsection \<open>Amount codec\<close>

definition parseAmountToU128 :: "string \<Rightarrow> error + int" where
  "parseAmountToU128 input =
     (let raw = stripUnderscores (trim input)
      in if raw = [] then Inr 0
         else if take 1 raw = ''-'' then Inl NegativeAmount
         else
           let parts = split_dot (stripPlus raw);
               integerPartRaw = (case parts of [] \<Rightarrow> [] | a # _ \<Rightarrow> a);
               fractionalRaw = (case parts of _ # b # _ \<Rightarrow> b | _ \<Rightarrow> []);
               integerPart = (if integerPartRaw = [] then ''0'' else integerPartRaw)
           in if length fractionalRaw > AMOUNT_DECIMALS then Inl TooManyDecimals
              else
                let fractionalPart = padEnd fractionalRaw AMOUNT_DECIMALS CHR ''0'';
                    stripped = stripLeadingZeros (integerPart @ fractionalPart);
                    digits = (if stripped = [] then ''0'' else stripped)
                in BigInt digits)"

definition encodeAmount :: "string \<Rightarrow> error + byte list" where
  "encodeAmount input =
     (case parseAmountToU128 input of Inl e \<Rightarrow> Inl e | Inr v \<Rightarrow> Inr (encodeU128LE v))"

subsection \<open>Account reference, metadata, payload and signature envelope\<close>

definition encodeAccountOwner :: "string \<Rightarrow> error + byte list" where
  "encodeAccountOwner owner =
     (let normalized = strip0x (toLowerCase (trim owner))
      in if length normalized = 40
         then (case hexToBytes normalized of
                 Inl e \<Rightarrow> Inl e
               | Inr raw \<Rightarrow> Inr (concatBytes [encodeU32LE 2, raw]))
         else if length normalized = 64
         then (case hexToBytes normalized of
                 Inl e \<Rightarrow> Inl e
               | Inr raw \<Rightarrow> Inr (concatBytes [encodeU32LE 1, raw]))
         else Inl UnsupportedOwnerLength)"

text \<open>\<^verbatim>\<open>decimals\<close> is a JavaScript number; the model covers its integer values. The
  fields of the request object and of the form carry the prefixes \<open>req_\<close> and
  \<open>form_\<close>.\<close>

definition encodeTokenMetadata :: "string \<Rightarrow> string \<Rightarrow> int \<Rightarrow> byte list" where
  "encodeTokenMetadata name symbol decimals =
     concatBytes [encodeString name, encodeString symbol, [ToUint8 (Some decimals)]]"

record create_token_request =
  req_owner :: string
  req_name :: string
  req_symbol :: string
  req_decimals :: int
  req_supply :: string

definition encodeCreateTokenRequest :: "create_token_request \<Rightarrow> error + byte list" where
  "encodeCreateTokenRequest payload =
     (case encodeAccountOwner (req_owner payload) of
        Inl e \<Rightarrow> Inl e
      | Inr ownerBytes \<Rightarrow>
          let metadataBytes =
                encodeTokenMetadata (req_name payload) (req_symbol payload) (req_decimals payload)
          in (case encodeAmount (req_supply payload) of
                Inl e \<Rightarrow> Inl e
              | Inr supplyBytes \<Rightarrow> Inr (concatBytes [ownerBytes, metadataBytes, supplyBytes])))"

definition encodeEvmAccountSignature :: "string \<Rightarrow> string \<Rightarrow> error + byte list" where
  "encodeEvmAccountSignature signatureHex address =
     (case hexToBytes signatureHex of
        Inl e \<Rightarrow> Inl e
      | Inr sigBytes \<Rightarrow>
          if length sigBytes \<noteq> 65 then Inl InvalidSignatureLength
          else (case hexToBytes (strip0x (toLowerCase (trim address))) of
                  Inl e \<Rightarrow> Inl e
                | Inr addressBytes \<Rightarrow>
                    if length addressBytes \<noteq> 20 then Inl InvalidAddressLength
                    else Inr (concatBytes [encodeU32LE 2, sigBytes, addressBytes])))"

subsection \<open>Signing\<close>

text \<open>
  \<^verbatim>\<open>signWithMetaMask\<close> is an async function with one \<^verbatim>\<open>await\<close>, the wallet's
  \<^verbatim>\<open>personal_sign\<close>. It is modelled as the two halves around that point:
  \<open>signWithMetaMask_request\<close> runs up to the request handed to the wallet, and
  \<open>signWithMetaMask_resume\<close> runs from the wallet's answer. Both return the form state
  they leave behind. The hash \<^verbatim>\<open>keccak_256\<close> comes from a library and is a parameter.
\<close>

record form =
  form_tokenName :: string
  form_tokenSymbol :: string
  form_description :: string
  form_owner :: string
  form_signature :: string
  form_decimals :: int
  form_supply :: string
  form_chainId :: string
  form_tokenFactory :: string
  form_endpoint :: string

record ethereum_request =
  request_method :: string
  request_params :: "string list"

definition request_of_form :: "string \<Rightarrow> form \<Rightarrow> create_token_request" where
  "request_of_form walletAddress f =
     \<lparr>req_owner = walletAddress,
      req_name = trim (form_tokenName f),
      req_symbol = trim (form_tokenSymbol f),
      req_decimals = form_decimals f,
      req_supply = trim (form_supply f)\<rparr>"

definition signWithMetaMask_request ::
  "(byte list \<Rightarrow> byte list) \<Rightarrow> string \<Rightarrow> form \<Rightarrow> form \<times> (error + ethereum_request)" where
  "signWithMetaMask_request keccak_256 walletAddress f =
     (if walletAddress = [] then (f, Inl WalletNotConnected)
      else
        let owner = walletAddress;
            f1 = (if toLowerCase (trim (form_owner f)) \<noteq> toLowerCase owner
                  then f\<lparr>form_owner := owner\<rparr> else f)
        in (case encodeCreateTokenRequest (request_of_form owner f) of
              Inl e \<Rightarrow> (f1, Inl e)
            | Inr payloadBytes \<Rightarrow>
                let domain = TEXT_ENCODER_encode (CREATE_TOKEN_TYPE @ ''::'');
                    hash = keccak_256 (concatBytes [domain, payloadBytes]);
                    messageHex = ''0x'' @ bytesToHex hash
                in (f1, Inr \<lparr>request_method = ''personal_sign'', request_params = [messageHex, owner]\<rparr>)))"

definition signWithMetaMask_resume :: "string \<Rightarrow> string \<Rightarrow> form \<Rightarrow> form \<times> (error + string)" where
  "signWithMetaMask_resume rawSignature owner f =
     (case encodeEvmAccountSignature rawSignature owner of
        Inl e \<Rightarrow> (f, Inl e)
      | Inr envelope \<Rightarrow>
          let signatureHex = bytesToHex envelope
          in (f\<lparr>form_signature := signatureHex\<rparr>, Inr signatureHex))"

subsection \<open>Reference notions used to state the properties\<close>

text \<open>The two lower-case hexadecimal digits of a byte, high digit first.\<close>

definition lowerHexPair :: "byte \<Rightarrow> string" where
  "lowerHexPair b = [hexChar (unat b div 16), hexChar (unat b mod 16)]"

text \<open>The little-endian bytes of an integer: byte \<open>i\<close> is the integer shifted down by
  \<open>8 * i\<close> bits, modulo 256.\<close>

definition le_bytes :: "nat \<Rightarrow> int \<Rightarrow> byte list" where
  "le_bytes n v = map (\<lambda>i. word_of_int (v div 256 ^ i)) [0..<n]"

definition le_value :: "byte list \<Rightarrow> int" where
  "le_value bytes = foldr (\<lambda>b acc. uint b + 256 * acc) bytes 0"

definition isHexString :: "string \<Rightarrow> bool" where
  "isHexString s = list_all (isDigitOf 16) s"

definition isDecimalString :: "string \<Rightarrow> bool" where
  "isDecimalString s = list_all (isDigitOf 10) s"

text \<open>The bytes of a string of ASCII characters.\<close>

definition asciiBytes :: "string \<Rightarrow> byte list" where
  "asciiBytes s = map (\<lambda>c. of_nat (code_unit c)) s"

text \<open>The byte that two hexadecimal digits denote.\<close>

definition hexPairByte :: "char \<Rightarrow> char \<Rightarrow> byte" where
  "hexPairByte hi lo = word_of_int (digitsValue 16 [hi, lo])"

definition hexDecode :: "string \<Rightarrow> byte list" where
  "hexDecode s = map (\<lambda>i. hexPairByte (s ! (2 * i)) (s ! (2 * i + 1))) [0..<length s div 2]"

text \<open>
  Modelled from the spec: the repository has no amount decoder; section 4.2 of the
  specification gives one in words, for testing. The unscaled integer (not negative) is
  written in decimal, left-padded with zeros to at least 19 digits, a decimal point is inserted 18
  digits from the end, then trailing zeros and a trailing decimal point are removed.
\<close>

definition digitChar :: "nat \<Rightarrow> char" where
  "digitChar d = char_of (48 + d)"

function toString10 :: "int \<Rightarrow> string" where
  "toString10 n =
     (if n < 10 then [digitChar (nat n)]
      else toString10 (n div 10) @ [digitChar (nat (n mod 10))])"
  by pat_completeness auto
termination
  by (relation "measure nat") auto

declare toString10.simps [simp del]

definition stripTrailingZeros :: "string \<Rightarrow> string" where
  "stripTrailingZeros s = rev (dropWhile (\<lambda>c. c = CHR ''0'') (rev s))"

definition stripTrailingPoint :: "string \<Rightarrow> string" where
  "stripTrailingPoint s = (if s \<noteq> [] \<and> last s = CHR ''.'' then butlast s else s)"

definition decodeAmount :: "int \<Rightarrow> string" where
  "decodeAmount v =
     (let padded = padStart (toString10 v) 19 CHR ''0'';
          k = length padded - 18
      in stripTrailingPoint (stripTrailingZeros (take k padded @ ''.'' @ drop k padded)))"

text \<open>
  Modelled from the spec: the normal form of a decimal amount string, which the
  specification names without defining. It is read off steps 4 and 7 of section 4.2 and
  the decoder: the integer part without leading zeros (\<open>0\<close> when nothing is left), then,
  when the fractional part without trailing zeros is not empty, a point and that part.
\<close>

definition integerDigits :: "string \<Rightarrow> string" where
  "integerDigits s = takeWhile (\<lambda>c. c \<noteq> CHR ''.'') s"

definition fractionalDigits :: "string \<Rightarrow> string" where
  "fractionalDigits s = drop 1 (dropWhile (\<lambda>c. c \<noteq> CHR ''.'') s)"

definition normalizedAmount :: "string \<Rightarrow> string" where
  "normalizedAmount s =
     (let i = stripLeadingZeros (integerDigits s);
          f = stripTrailingZeros (fractionalDigits s)
      in (if i = [] then ''0'' else i) @ (if f = [] then [] else CHR ''.'' # f))"

text \<open>A non-negative decimal amount string: decimal digits, at most one point, at most
  18 digits after it.\<close>

definition isDecimalAmount :: "string \<Rightarrow> bool" where
  "isDecimalAmount s =
     (isDecimalString (integerDigits s) \<and> isDecimalString (fractionalDigits s)
      \<and> length (fractionalDigits s) \<le> 18)"

text \<open>The steps of \<^verbatim>\<open>parseAmountToU128\<close> that follow the split at the points, as a
  function of the first two segments.\<close>

definition amountOfSegments :: "string \<Rightarrow> string \<Rightarrow> error + int" where
  "amountOfSegments integerPartRaw fractionalRaw =
     (if length fractionalRaw > 18 then Inl TooManyDecimals
      else
        let stripped =
              stripLeadingZeros ((if integerPartRaw = [] then ''0'' else integerPartRaw)
                                 @ padEnd fractionalRaw 18 CHR ''0'')
        in BigInt (if stripped = [] then ''0'' else stripped))"

section \<open>Properties of the primitive encoders\<close>

subsection \<open>Concatenation\<close>

lemma foldl_length_sum:
  "foldl (\<lambda>sum chunk. sum + length chunk) a chunks = a + length (concat chunks)"
  by (induction chunks arbitrary: a) auto

lemma set_chunk_length:
  "offset + length chunk \<le> length result \<Longrightarrow> length (set_chunk result chunk offset) = length result"
  by (simp add: set_chunk_def)

lemma set_chunk_take:
  "offset + length chunk \<le> length result \<Longrightarrow>
   take (offset + length chunk) (set_chunk result chunk offset) = take offset result @ chunk"
  by (simp add: set_chunk_def)

lemma set_chunk_drop:
  assumes "offset + length chunk \<le> length result" and "offset + length chunk \<le> n"
  shows "drop n (set_chunk result chunk offset) = drop n result"
proof -
  have "n - offset - length chunk + (offset + length chunk) = n"
    using assms by simp
  then show ?thesis
    using assms by (simp add: set_chunk_def min_def)
qed

lemma concat_loop:
  "offset + length (concat chunks) \<le> length result \<Longrightarrow>
   foldl (\<lambda>(result, offset) chunk. (set_chunk result chunk offset, offset + length chunk))
         (result, offset) chunks
   = (take offset result @ concat chunks @ drop (offset + length (concat chunks)) result,
      offset + length (concat chunks))"
proof (induction chunks arbitrary: result offset)
  case Nil
  then show ?case by simp
next
  case (Cons c cs)
  have fits: "offset + length c \<le> length result"
    using Cons.prems by simp
  have room: "(offset + length c) + length (concat cs) \<le> length (set_chunk result c offset)"
    using Cons.prems fits by (simp add: set_chunk_length)
  show ?case
    using Cons.IH [OF room] fits
    by (simp add: set_chunk_take set_chunk_drop [OF fits] add.assoc)
qed

lemma concatBytes_concat: "concatBytes chunks = concat chunks"
  using concat_loop [of 0 chunks "replicate (length (concat chunks)) 0"]
  by (simp add: concatBytes_def foldl_length_sum)

subsection \<open>Little-endian integers\<close>

lemma le_bytes_Suc: "le_bytes (Suc n) v = word_of_int v # le_bytes n (v div 256)"
proof -
  have "map (\<lambda>i. (word_of_int (v div 256 ^ i) :: byte)) [0..<Suc n]
        = word_of_int (v div 256 ^ 0) # map (\<lambda>i. word_of_int (v div 256 ^ Suc i)) [0..<n]"
    by (simp only: map_upt_Suc)
  moreover have "v div 256 ^ Suc i = v div 256 div 256 ^ i" for i
    by (simp add: zdiv_zmult2_eq)
  ultimately show ?thesis
    by (simp add: le_bytes_def)
qed

lemma le_bytes_0: "le_bytes 0 v = []"
  by (simp add: le_bytes_def)

lemma length_le_bytes: "length (le_bytes n v) = n"
  by (simp add: le_bytes_def)

lemma low_byte_and: "(word_of_int (c AND 255) :: byte) = word_of_int c"
proof -
  have "mask 8 = (255 :: int)"
    by (simp add: mask_eq_exp_minus_1)
  then have "c AND 255 = take_bit 8 c"
    by (simp add: take_bit_eq_mask)
  then show ?thesis
    by (simp add: word_of_int_eq_iff)
qed

lemma encodeU128LE_loop_le_bytes:
  "length bytes = 16 \<Longrightarrow> i \<le> 16 \<Longrightarrow>
   encodeU128LE_loop i cursor bytes = take i bytes @ le_bytes (16 - i) cursor"
proof (induction i cursor bytes rule: encodeU128LE_loop.induct)
  case (1 i cursor bytes)
  show ?case
  proof (cases "i < 16")
    case True
    then have step: "16 - i = Suc (16 - (i + 1))"
      by simp
    have "encodeU128LE_loop i cursor bytes
          = take (i + 1) (bytes[i := word_of_int (cursor AND 255)])
            @ le_bytes (16 - (i + 1)) (drop_bit 8 cursor)"
      using "1.IH" [OF True] "1.prems" True
      by (subst encodeU128LE_loop.simps) simp
    also have "take (i + 1) (bytes[i := word_of_int (cursor AND 255)])
               = take i bytes @ [word_of_int cursor]"
      using "1.prems" True by (simp add: take_Suc_conv_app_nth low_byte_and)
    finally show ?thesis
      by (simp only: step le_bytes_Suc drop_bit_eq_div) simp
  next
    case False
    with "1.prems" have "i = 16" by simp
    then show ?thesis
      using "1.prems" by (subst encodeU128LE_loop.simps) (simp add: le_bytes_0)
  qed
qed

lemma encodeU128LE_le_bytes: "encodeU128LE v = le_bytes 16 v"
  by (simp add: encodeU128LE_def encodeU128LE_loop_le_bytes)

lemma length_encodeU128LE: "length (encodeU128LE v) = 16"
  by (simp add: encodeU128LE_le_bytes length_le_bytes)

lemma le_value_Cons: "le_value (b # bs) = uint b + 256 * le_value bs"
  by (simp add: le_value_def)

lemma le_value_le_bytes: "le_value (le_bytes n v) = v mod 256 ^ n"
proof (induction n arbitrary: v)
  case 0
  then show ?case by (simp add: le_bytes_0 le_value_def)
next
  case (Suc n)
  have low: "uint (word_of_int v :: byte) = v mod 256"
    by (simp add: uint_word_of_int take_bit_eq_mod)
  have split: "v mod 256 ^ Suc n = v mod 256 + 256 * (v div 256 mod 256 ^ n)"
    using zmod_zmult2_eq [of "256 ^ n" v 256] by simp
  have "le_value (le_bytes (Suc n) v) = v mod 256 + 256 * (v div 256 mod 256 ^ n)"
    by (simp add: le_bytes_Suc le_value_Cons low Suc.IH)
  then show ?case
    by (simp only: split)
qed

lemma length_encodeU32LE: "length (encodeU32LE v) = 4"
  by (simp add: encodeU32LE_def Let_def)

subsection \<open>Characters\<close>

lemma code_unit_inject: "code_unit a = code_unit b \<Longrightarrow> a = b"
  by (simp add: code_unit_def)

lemma code_unit_literals:
  "code_unit CHR ''0'' = 48" "code_unit CHR ''x'' = 120" "code_unit CHR ''X'' = 88"
  "code_unit CHR ''+'' = 43" "code_unit CHR ''-'' = 45" "code_unit CHR ''.'' = 46"
  "code_unit CHR ''_'' = 95" "code_unit CHR ''o'' = 111" "code_unit CHR ''O'' = 79"
  "code_unit CHR ''b'' = 98" "code_unit CHR ''B'' = 66"
  by (simp_all add: code_unit_def)

lemma isDigitOf_16_range:
  "isDigitOf 16 c \<longleftrightarrow>
     (48 \<le> code_unit c \<and> code_unit c \<le> 57) \<or> (97 \<le> code_unit c \<and> code_unit c \<le> 102)
     \<or> (65 \<le> code_unit c \<and> code_unit c \<le> 70)"
  by (auto simp: isDigitOf_def digitValue_def Let_def)

lemma isDigitOf_10_range:
  "isDigitOf 10 c \<longleftrightarrow> 48 \<le> code_unit c \<and> code_unit c \<le> 57"
  by (auto simp: isDigitOf_def digitValue_def Let_def)

lemma isDigitOf_10_16: "isDigitOf 10 c \<Longrightarrow> isDigitOf 16 c"
  by (simp add: isDigitOf_16_range isDigitOf_10_range)

lemma hex_digit_not_special:
  assumes "isDigitOf 16 c"
  shows "\<not> isWhiteSpace c" "c \<noteq> CHR ''x''" "c \<noteq> CHR ''X''" "c \<noteq> CHR ''+''" "c \<noteq> CHR ''-''"
    "c \<noteq> CHR ''.''" "c \<noteq> CHR ''_''" "c \<noteq> CHR ''o''" "c \<noteq> CHR ''O''"
  using assms by (auto simp: isDigitOf_16_range isWhiteSpace_def code_unit_literals)

lemma digitValue_decimal: "isDigitOf 10 c \<Longrightarrow> digitValue c = Some (code_unit c - 48)"
  by (auto simp: isDigitOf_def digitValue_def Let_def split: if_splits)

lemma digitValue_zero: "digitValue CHR ''0'' = Some 0"
  by (simp add: digitValue_def code_unit_literals)

lemma isDigitOf_zero: "0 < radix \<Longrightarrow> isDigitOf radix CHR ''0''"
  by (simp add: isDigitOf_def digitValue_zero)

subsection \<open>Hexadecimal text\<close>

lemma hexToBytes_loop_map:
  "i \<le> length bytes \<Longrightarrow>
   hexToBytes_loop normalized i bytes
     = take i bytes
       @ map (\<lambda>k. ToUint8 (parseInt16 (slice_str normalized (k * 2) (k * 2 + 2)))) [i..<length bytes]"
proof (induction normalized i bytes rule: hexToBytes_loop.induct)
  case (1 normalized i bytes)
  let ?f = "\<lambda>k. ToUint8 (parseInt16 (slice_str normalized (k * 2) (k * 2 + 2)))"
  show ?case
  proof (cases "i < length bytes")
    case True
    have "hexToBytes_loop normalized i bytes
          = take (i + 1) (bytes[i := ?f i]) @ map ?f [i + 1..<length bytes]"
      using "1.IH" [OF True] True by (subst hexToBytes_loop.simps) simp
    also have "take (i + 1) (bytes[i := ?f i]) = take i bytes @ [?f i]"
      using True by (simp add: take_Suc_conv_app_nth)
    finally show ?thesis
      using True by (simp add: upt_conv_Cons)
  next
    case False
    with "1.prems" have "i = length bytes" by simp
    then show ?thesis
      by (subst hexToBytes_loop.simps) simp
  qed
qed

lemma hexToBytes_map:
  "hexToBytes hex =
     (if odd (length (strip0x_i hex)) then Inl InvalidHexLength
      else Inr (map (\<lambda>k. ToUint8 (parseInt16 (slice_str (strip0x_i hex) (k * 2) (k * 2 + 2))))
                    [0..<length (strip0x_i hex) div 2]))"
  by (simp add: hexToBytes_def Let_def hexToBytes_loop_map odd_iff_mod_2_eq_one)

lemma slice_pair:
  "k * 2 + 2 \<le> length s \<Longrightarrow> slice_str s (k * 2) (k * 2 + 2) = [s ! (2 * k), s ! (2 * k + 1)]"
proof -
  assume len: "k * 2 + 2 \<le> length s"
  have "drop (k * 2) s = s ! (k * 2) # drop (Suc (k * 2)) s"
    using len by (simp add: Cons_nth_drop_Suc)
  moreover have "drop (Suc (k * 2)) s = s ! Suc (k * 2) # drop (Suc (Suc (k * 2))) s"
    using len by (simp add: Cons_nth_drop_Suc)
  ultimately show ?thesis
    by (simp add: slice_str_def mult.commute)
qed

lemma parseInt16_hex_pair:
  assumes "isDigitOf 16 a" and "isDigitOf 16 b"
  shows "parseInt16 [a, b] = Some (digitsValue 16 [a, b])"
  using assms hex_digit_not_special [OF assms(1)] hex_digit_not_special [OF assms(2)]
  by (simp add: parseInt16_def Let_def)

lemma hexToBytes_hex:
  assumes "isHexString s" and "even (length s)"
  shows "hexToBytes s = Inr (hexDecode s)"
proof -
  have strip: "strip0x_i s = s"
  proof (cases s rule: strip0x_i.cases)
    case (1 a b rest)
    with assms(1) have "isDigitOf 16 b" by (simp add: isHexString_def)
    from hex_digit_not_special [OF this] 1 show ?thesis by simp
  qed simp_all
  have "ToUint8 (parseInt16 (slice_str s (k * 2) (k * 2 + 2))) = hexPairByte (s ! (2 * k)) (s ! (2 * k + 1))"
    if "k < length s div 2" for k
  proof -
    from that have len: "k * 2 + 2 \<le> length s" by simp
    then have "isDigitOf 16 (s ! (2 * k))" "isDigitOf 16 (s ! (2 * k + 1))"
      using assms(1) by (simp_all add: isHexString_def list_all_length)
    then have "parseInt16 [s ! (2 * k), s ! (2 * k + 1)]
               = Some (digitsValue 16 [s ! (2 * k), s ! (2 * k + 1)])"
      by (rule parseInt16_hex_pair)
    then show ?thesis
      unfolding slice_pair [OF len] by (simp add: ToUint8_def hexPairByte_def)
  qed
  then show ?thesis
    using assms(2) by (simp add: hexToBytes_map strip hexDecode_def)
qed

lemma length_hexDecode: "length (hexDecode s) = length s div 2"
  by (simp add: hexDecode_def)

subsection \<open>Hexadecimal output\<close>

lemma toString16_byte:
  "n < 256 \<Longrightarrow> padStart (toString16 n) 2 CHR ''0'' = [hexChar (n div 16), hexChar (n mod 16)]"
proof (cases "n < 16")
  case True
  then show ?thesis
    by (subst toString16.simps) (simp add: padStart_def hexChar_def)
next
  case False
  assume "n < 256"
  then have "n div 16 < 16" by simp
  then have "toString16 (n div 16) = [hexChar (n div 16)]"
    by (subst toString16.simps) simp
  with False show ?thesis
    by (subst toString16.simps) (simp add: padStart_def)
qed

lemma bytesToHex_pairs: "bytesToHex bytes = concat (map lowerHexPair bytes)"
proof -
  have "padStart (toString16 (unat b)) 2 CHR ''0'' = lowerHexPair b" for b :: byte
  proof -
    have "unat b < 2 ^ LENGTH(8)"
      by (rule unsigned_less)
    then have "unat b < 256"
      by simp
    then show ?thesis
      by (simp add: toString16_byte lowerHexPair_def)
  qed
  then show ?thesis
    by (simp add: bytesToHex_def)
qed

lemma decode_pairs_hex:
  assumes "isHexString s" and "even (length s)"
  shows "map (\<lambda>k. ToUint8 (parseInt16 (slice_str s (k * 2) (k * 2 + 2)))) [0..<length s div 2]
         = hexDecode s"
proof -
  have "ToUint8 (parseInt16 (slice_str s (k * 2) (k * 2 + 2))) = hexPairByte (s ! (2 * k)) (s ! (2 * k + 1))"
    if "k < length s div 2" for k
  proof -
    from that have len: "k * 2 + 2 \<le> length s" by simp
    then have "isDigitOf 16 (s ! (2 * k))" "isDigitOf 16 (s ! (2 * k + 1))"
      using assms(1) by (simp_all add: isHexString_def list_all_length)
    then have "parseInt16 [s ! (2 * k), s ! (2 * k + 1)]
               = Some (digitsValue 16 [s ! (2 * k), s ! (2 * k + 1)])"
      by (rule parseInt16_hex_pair)
    then show ?thesis
      unfolding slice_pair [OF len] by (simp add: ToUint8_def hexPairByte_def)
  qed
  then show ?thesis
    by (simp add: hexDecode_def)
qed

lemma hexToBytes_length:
  "hexToBytes hex = Inr bytes \<Longrightarrow> length bytes = length (strip0x_i hex) div 2"
  by (auto simp: hexToBytes_map split: if_splits)

lemma hexToBytes_Inr_iff:
  "(\<exists>bytes. hexToBytes hex = Inr bytes \<and> length bytes = n)
     \<longleftrightarrow> length (strip0x_i hex) = 2 * n"
  by (auto simp: hexToBytes_map)

section \<open>Payload, signing message, signature envelope and hexadecimal decoding\<close>

text \<open>
  C1. When the owner and the supply encode, the create-token payload is the owner's
  account reference, then the metadata, then the amount, in this order and with nothing
  between or around them. The metadata is the length-prefixed UTF-8 name, the
  length-prefixed UTF-8 symbol and one byte for the decimals; the amount is the 16
  little-endian bytes of the parsed unscaled integer.
\<close>

theorem encodeCreateTokenRequest_layout:
  assumes "encodeAccountOwner (req_owner p) = Inr ownerBytes"
    and "encodeAmount (req_supply p) = Inr amountBytes"
  shows "encodeCreateTokenRequest p
           = Inr (ownerBytes
                  @ encodeTokenMetadata (req_name p) (req_symbol p) (req_decimals p)
                  @ amountBytes)
         \<and> encodeTokenMetadata (req_name p) (req_symbol p) (req_decimals p)
           = (encodeU32LE (length (TEXT_ENCODER_encode (req_name p)))
                @ TEXT_ENCODER_encode (req_name p))
             @ (encodeU32LE (length (TEXT_ENCODER_encode (req_symbol p)))
                @ TEXT_ENCODER_encode (req_symbol p))
             @ [word_of_int (req_decimals p)]
         \<and> length amountBytes = 16
         \<and> (\<exists>v. parseAmountToU128 (req_supply p) = Inr v \<and> amountBytes = le_bytes 16 v)"
proof -
  from assms(2) obtain v where v: "parseAmountToU128 (req_supply p) = Inr v"
    and bytes: "amountBytes = le_bytes 16 v"
    by (auto simp: encodeAmount_def encodeU128LE_le_bytes split: sum.splits)
  have "encodeCreateTokenRequest p
          = Inr (ownerBytes
                 @ encodeTokenMetadata (req_name p) (req_symbol p) (req_decimals p)
                 @ amountBytes)"
    using assms by (simp add: encodeCreateTokenRequest_def concatBytes_concat)
  moreover have "encodeTokenMetadata n s d
          = (encodeU32LE (length (TEXT_ENCODER_encode n)) @ TEXT_ENCODER_encode n)
            @ (encodeU32LE (length (TEXT_ENCODER_encode s)) @ TEXT_ENCODER_encode s)
            @ [word_of_int d]" for n s d
    by (simp add: encodeTokenMetadata_def encodeString_def Let_def concatBytes_concat ToUint8_def)
  moreover have "length amountBytes = 16"
    using bytes by (simp add: length_le_bytes)
  ultimately show ?thesis
    using v bytes by blast
qed

theorem encodeCreateTokenRequest_layout_witness:
  "encodeAccountOwner (req_owner \<lparr>req_owner = replicate 40 CHR ''a'', req_name = ''Test'',
        req_symbol = ''TST'', req_decimals = 9, req_supply = ''800000000''\<rparr>)
     = Inr ([2, 0, 0, 0] @ replicate 20 170)
   \<and> encodeAmount (req_supply \<lparr>req_owner = replicate 40 CHR ''a'', req_name = ''Test'',
        req_symbol = ''TST'', req_decimals = 9, req_supply = ''800000000''\<rparr>)
     = Inr [0, 0, 0, 32, 151, 102, 64, 230, 150, 190, 149, 2, 0, 0, 0, 0]
   \<and> encodeCreateTokenRequest \<lparr>req_owner = replicate 40 CHR ''a'', req_name = ''Test'',
        req_symbol = ''TST'', req_decimals = 9, req_supply = ''800000000''\<rparr>
     = Inr (([2, 0, 0, 0] @ replicate 20 170)
            @ [4, 0, 0, 0, 84, 101, 115, 116, 3, 0, 0, 0, 84, 83, 84, 9]
            @ [0, 0, 0, 32, 151, 102, 64, 230, 150, 190, 149, 2, 0, 0, 0, 0])"
proof -
  let ?p = "\<lparr>req_owner = replicate 40 CHR ''a'', req_name = ''Test'',
        req_symbol = ''TST'', req_decimals = 9, req_supply = ''800000000''\<rparr>"
  have own: "encodeAccountOwner (req_owner ?p) = Inr ([2, 0, 0, 0] @ replicate 20 170)"
    by code_simp
  have amt: "encodeAmount (req_supply ?p)
             = Inr [0, 0, 0, 32, 151, 102, 64, 230, 150, 190, 149, 2, 0, 0, 0, 0]"
    by code_simp
  have meta: "encodeTokenMetadata (req_name ?p) (req_symbol ?p) (req_decimals ?p)
              = [4, 0, 0, 0, 84, 101, 115, 116, 3, 0, 0, 0, 84, 83, 84, 9]"
    by code_simp
  from encodeCreateTokenRequest_layout [OF own amt] own amt show ?thesis
    unfolding meta by blast
qed


text \<open>
  C2. For a payload that encodes, the bytes handed to the hash are the ASCII bytes of
  \<^verbatim>\<open>CreateTokenRequest::\<close> followed at once by the payload bytes, and the message of
  the \<^verbatim>\<open>personal_sign\<close> request is \<^verbatim>\<open>0x\<close> followed by two lower-case hexadecimal
  digits for each byte of the digest. The hash is any function.
\<close>

theorem signWithMetaMask_request_message:
  assumes "walletAddress \<noteq> []"
    and "encodeCreateTokenRequest (request_of_form walletAddress f) = Inr payloadBytes"
  shows "snd (signWithMetaMask_request keccak_256 walletAddress f)
         = Inr \<lparr>request_method = ''personal_sign'',
                request_params = [''0x'' @ concat (map lowerHexPair
                                     (keccak_256 (asciiBytes ''CreateTokenRequest::'' @ payloadBytes))),
                          walletAddress]\<rparr>"
proof -
  have domain: "TEXT_ENCODER_encode (CREATE_TOKEN_TYPE @ ''::'') = asciiBytes ''CreateTokenRequest::''"
    by (simp add: TEXT_ENCODER_encode_def CREATE_TOKEN_TYPE_def asciiBytes_def utf8_unit_def
        code_unit_def)
  show ?thesis
    using assms
    by (simp add: signWithMetaMask_request_def Let_def domain concatBytes_concat bytesToHex_pairs)
qed

theorem signWithMetaMask_request_message_witness:
  "''0xaaaaaaaaaaaaaaaaaaaaaaaaaaaaaaaaaaaaaaaa'' \<noteq> []
   \<and> encodeCreateTokenRequest (request_of_form ''0xaaaaaaaaaaaaaaaaaaaaaaaaaaaaaaaaaaaaaaaa''
        \<lparr>form_tokenName = ''Test'', form_tokenSymbol = ''TST'', form_description = [],
         form_owner = [], form_signature = [], form_decimals = 9,
         form_supply = ''800000000'', form_chainId = [], form_tokenFactory = [],
         form_endpoint = []\<rparr>)
     = Inr (([2, 0, 0, 0] @ replicate 20 170)
            @ [4, 0, 0, 0, 84, 101, 115, 116, 3, 0, 0, 0, 84, 83, 84, 9]
            @ [0, 0, 0, 32, 151, 102, 64, 230, 150, 190, 149, 2, 0, 0, 0, 0])
   \<and> snd (signWithMetaMask_request (take 22) ''0xaaaaaaaaaaaaaaaaaaaaaaaaaaaaaaaaaaaaaaaa''
        \<lparr>form_tokenName = ''Test'', form_tokenSymbol = ''TST'', form_description = [],
         form_owner = [], form_signature = [], form_decimals = 9,
         form_supply = ''800000000'', form_chainId = [], form_tokenFactory = [],
         form_endpoint = []\<rparr>)
     = Inr \<lparr>request_method = ''personal_sign'',
            request_params = [''0x437265617465546f6b656e526571756573743a3a0200'',
                      ''0xaaaaaaaaaaaaaaaaaaaaaaaaaaaaaaaaaaaaaaaa'']\<rparr>"
proof -
  let ?w = "''0xaaaaaaaaaaaaaaaaaaaaaaaaaaaaaaaaaaaaaaaa''"
  let ?f = "\<lparr>form_tokenName = ''Test'', form_tokenSymbol = ''TST'', form_description = [],
         form_owner = [], form_signature = [], form_decimals = 9,
         form_supply = ''800000000'', form_chainId = [], form_tokenFactory = [],
         form_endpoint = []\<rparr>"
  let ?payload = "([2, 0, 0, 0] @ replicate 20 170)
            @ [4, 0, 0, 0, 84, 101, 115, 116, 3, 0, 0, 0, 84, 83, 84, 9]
            @ [0, 0, 0, 32, 151, 102, 64, 230, 150, 190, 149, 2, 0, 0, 0, 0] :: byte list"
  have connected: "?w \<noteq> []"
    by simp
  have encodes: "encodeCreateTokenRequest (request_of_form ?w ?f) = Inr ?payload"
    by code_simp
  have hex: "''0x'' @ concat (map lowerHexPair
               (take 22 (asciiBytes ''CreateTokenRequest::'' @ ?payload)))
             = ''0x437265617465546f6b656e526571756573743a3a0200''"
    by code_simp
  from signWithMetaMask_request_message [OF connected encodes, of "take 22"]
  show ?thesis
    unfolding hex using connected encodes by blast
qed

text \<open>
  C4. The signature envelope encodes exactly when the signature text decodes to 65 bytes
  and the normalised address text to 20 bytes, that is when the two texts have 130 and
  40 characters after their \<^verbatim>\<open>0x\<close> prefix. A signature of another length, 64 and 66
  bytes among them, fails with the signature error; with a 65-byte signature an address
  of another length fails with the address error. The envelope has 89 bytes: the tag 2 as
  a little-endian 32-bit integer, the signature bytes, the address bytes.
\<close>

theorem encodeEvmAccountSignature_envelope:
  "((\<exists>out. encodeEvmAccountSignature signatureHex address = Inr out)
      \<longleftrightarrow> length (strip0x_i signatureHex) = 130
          \<and> length (strip0x_i (strip0x (toLowerCase (trim address)))) = 40)
   \<and> (encodeEvmAccountSignature signatureHex address = Inr out
      \<longleftrightarrow> (\<exists>sigBytes addressBytes.
             hexToBytes signatureHex = Inr sigBytes \<and> length sigBytes = 65
             \<and> hexToBytes (strip0x (toLowerCase (trim address))) = Inr addressBytes
             \<and> length addressBytes = 20
             \<and> out = encodeU32LE 2 @ sigBytes @ addressBytes))
   \<and> (encodeEvmAccountSignature signatureHex address = Inr out \<longrightarrow> length out = 89)
   \<and> (hexToBytes signatureHex = Inr sigBytes \<and> length sigBytes \<noteq> 65
      \<longrightarrow> encodeEvmAccountSignature signatureHex address = Inl InvalidSignatureLength)
   \<and> (hexToBytes signatureHex = Inr sigBytes \<and> length sigBytes = 65
       \<and> hexToBytes (strip0x (toLowerCase (trim address))) = Inr addressBytes
       \<and> length addressBytes \<noteq> 20
      \<longrightarrow> encodeEvmAccountSignature signatureHex address = Inl InvalidAddressLength)"
proof -
  let ?a = "strip0x (toLowerCase (trim address))"
  have shape: "encodeEvmAccountSignature signatureHex address = Inr r
      \<longleftrightarrow> (\<exists>sb ab. hexToBytes signatureHex = Inr sb \<and> length sb = 65
             \<and> hexToBytes ?a = Inr ab \<and> length ab = 20
             \<and> r = encodeU32LE 2 @ sb @ ab)" for r
    by (auto simp: encodeEvmAccountSignature_def concatBytes_concat split: sum.splits)
  have sig: "(\<exists>sb. hexToBytes signatureHex = Inr sb \<and> length sb = 65)
             \<longleftrightarrow> length (strip0x_i signatureHex) = 130"
    using hexToBytes_Inr_iff [of signatureHex 65] by simp
  have addr: "(\<exists>ab. hexToBytes ?a = Inr ab \<and> length ab = 20)
             \<longleftrightarrow> length (strip0x_i ?a) = 40"
    using hexToBytes_Inr_iff [of ?a 20] by simp
  have exists: "(\<exists>r. encodeEvmAccountSignature signatureHex address = Inr r)
      \<longleftrightarrow> length (strip0x_i signatureHex) = 130 \<and> length (strip0x_i ?a) = 40"
    unfolding shape sig [symmetric] addr [symmetric] by blast
  have len: "encodeEvmAccountSignature signatureHex address = Inr out \<longrightarrow> length out = 89"
    unfolding shape by (auto simp: length_encodeU32LE)
  have bad_sig: "hexToBytes signatureHex = Inr sigBytes \<and> length sigBytes \<noteq> 65
      \<longrightarrow> encodeEvmAccountSignature signatureHex address = Inl InvalidSignatureLength"
    by (simp add: encodeEvmAccountSignature_def)
  have bad_addr: "hexToBytes signatureHex = Inr sigBytes \<and> length sigBytes = 65
       \<and> hexToBytes ?a = Inr addressBytes \<and> length addressBytes \<noteq> 20
      \<longrightarrow> encodeEvmAccountSignature signatureHex address = Inl InvalidAddressLength"
    by (simp add: encodeEvmAccountSignature_def)
  from exists shape [of out] len bad_sig bad_addr show ?thesis
    by blast
qed

theorem encodeEvmAccountSignature_envelope_witness:
  "length (strip0x_i (replicate 130 CHR ''1'')) = 130
   \<and> length (strip0x_i (strip0x (toLowerCase (trim (''0x'' @ replicate 40 CHR ''A''))))) = 40
   \<and> (\<exists>out. encodeEvmAccountSignature (replicate 130 CHR ''1'') (''0x'' @ replicate 40 CHR ''A'')
              = Inr out \<and> length out = 89)
   \<and> hexToBytes (replicate 128 CHR ''1'') = Inr (replicate 64 17)
   \<and> encodeEvmAccountSignature (replicate 128 CHR ''1'') (''0x'' @ replicate 40 CHR ''A'')
     = Inl InvalidSignatureLength
   \<and> hexToBytes (replicate 132 CHR ''1'') = Inr (replicate 66 17)
   \<and> encodeEvmAccountSignature (replicate 132 CHR ''1'') (''0x'' @ replicate 40 CHR ''A'')
     = Inl InvalidSignatureLength"
proof -
  let ?addr = "''0x'' @ replicate 40 CHR ''A''"
  have s: "length (strip0x_i (replicate 130 CHR ''1'')) = 130"
    by code_simp
  have a: "length (strip0x_i (strip0x (toLowerCase (trim ?addr)))) = 40"
    by code_simp
  have s64: "hexToBytes (replicate 128 CHR ''1'') = Inr (replicate 64 17)"
    by code_simp
  have s66: "hexToBytes (replicate 132 CHR ''1'') = Inr (replicate 66 17)"
    by code_simp
  have n64: "length (replicate 64 (17 :: byte)) \<noteq> 65" and n66: "length (replicate 66 (17 :: byte)) \<noteq> 65"
    by simp_all
  from encodeEvmAccountSignature_envelope [of "replicate 130 CHR ''1''" ?addr] s a
  have ok: "\<exists>out. encodeEvmAccountSignature (replicate 130 CHR ''1'') ?addr = Inr out \<and> length out = 89"
    by blast
  from encodeEvmAccountSignature_envelope
         [of "replicate 128 CHR ''1''" ?addr _ "replicate 64 17"] s64 n64
  have f64: "encodeEvmAccountSignature (replicate 128 CHR ''1'') ?addr = Inl InvalidSignatureLength"
    by blast
  from encodeEvmAccountSignature_envelope
         [of "replicate 132 CHR ''1''" ?addr _ "replicate 66 17"] s66 n66
  have f66: "encodeEvmAccountSignature (replicate 132 CHR ''1'') ?addr = Inl InvalidSignatureLength"
    by blast
  from s a ok s64 f64 s66 f66 show ?thesis
    by blast
qed

text \<open>
  C9. The metadata encoder never fails, and its last byte is the decimals value modulo
  256 whatever the integer: 256 is written as 0 and 300 as 44.
\<close>

theorem encodeTokenMetadata_decimals_byte:
  "(\<exists>b. encodeTokenMetadata tokenName tokenSymbol d
            = encodeString tokenName @ encodeString tokenSymbol @ [b]
         \<and> uint b = d mod 256)
   \<and> encodeTokenMetadata tokenName tokenSymbol 256
       = encodeString tokenName @ encodeString tokenSymbol @ [0]
   \<and> encodeTokenMetadata tokenName tokenSymbol 300
       = encodeString tokenName @ encodeString tokenSymbol @ [44]"
proof -
  have eq: "encodeTokenMetadata tokenName tokenSymbol k
            = encodeString tokenName @ encodeString tokenSymbol @ [word_of_int k]" for k
    by (simp add: encodeTokenMetadata_def concatBytes_concat ToUint8_def)
  have "uint (word_of_int d :: byte) = d mod 256"
    by (simp add: uint_word_of_int take_bit_eq_mod)
  moreover have "(word_of_int 256 :: byte) = 0" "(word_of_int 300 :: byte) = 44"
    by simp_all
  ultimately show ?thesis
    by (simp add: eq)
qed

lemma encodeAccountOwner_hex:
  assumes "isHexString (strip0x (toLowerCase (trim owner)))"
  shows "encodeAccountOwner owner =
     (if length (strip0x (toLowerCase (trim owner))) = 40
      then Inr (encodeU32LE 2 @ hexDecode (strip0x (toLowerCase (trim owner))))
      else if length (strip0x (toLowerCase (trim owner))) = 64
      then Inr (encodeU32LE 1 @ hexDecode (strip0x (toLowerCase (trim owner))))
      else Inl UnsupportedOwnerLength)"
  using assms by (simp add: encodeAccountOwner_def Let_def hexToBytes_hex concatBytes_concat)

lemma encodeAccountOwner_other_length:
  "length (strip0x (toLowerCase (trim owner))) \<noteq> 40 \<Longrightarrow>
   length (strip0x (toLowerCase (trim owner))) \<noteq> 64 \<Longrightarrow>
   encodeAccountOwner owner = Inl UnsupportedOwnerLength"
  by (simp add: encodeAccountOwner_def Let_def)

text \<open>
  C3. An owner text with a doubled prefix, \<^verbatim>\<open>0x0x\<close> and 38 hexadecimal digits, keeps 40
  characters after the prefix is removed once; the decoder removes the second prefix too
  and returns 19 bytes, and the encoder answers with the tag 2 and these 19 bytes, where
  an owner that is neither 20 nor 32 bytes long is to be refused. The same happens with
  \<^verbatim>\<open>0x0x\<close> and 62 digits: tag 1 and 31 bytes.
\<close>

theorem encodeAccountOwner_double_prefix:
  "strip0x (toLowerCase (trim (''0x0x'' @ replicate 38 CHR ''a''))) = ''0x'' @ replicate 38 CHR ''a''
   \<and> hexToBytes (''0x'' @ replicate 38 CHR ''a'') = Inr (replicate 19 170)
   \<and> encodeAccountOwner (''0x0x'' @ replicate 38 CHR ''a'') = Inr ([2, 0, 0, 0] @ replicate 19 170)
   \<and> encodeAccountOwner (''0x0x'' @ replicate 62 CHR ''a'') = Inr ([1, 0, 0, 0] @ replicate 31 170)"
  by code_simp

text \<open>
  C6. The amount \<^verbatim>\<open>+-5\<close> begins with a minus sign once the plus sign is removed, but the
  sign test runs before that removal: the text is parsed to the negative integer
  \<open>-5 * 10^18\<close> and encoded as its 128-bit two's complement.
\<close>

theorem encodeAmount_plus_minus:
  "stripPlus (stripUnderscores (trim ''+-5'')) = ''-5''
   \<and> parseAmountToU128 ''+-5'' = Inr (- 5000000000000000000)
   \<and> encodeAmount ''+-5''
     = Inr [0, 0, 12, 187, 125, 110, 156, 186, 255, 255, 255, 255, 255, 255, 255, 255]"
  by code_simp

text \<open>
  C7, as the code has it. Hexadecimal decoding fails exactly when the text, after one
  \<^verbatim>\<open>0x\<close> or \<^verbatim>\<open>0X\<close> prefix is removed, has an odd number of characters, and this is
  its only error. A text of even length always decodes, to half as many bytes, each pair
  of characters read by \<^verbatim>\<open>parseInt(pair, 16)\<close> and stored in a byte. When all characters
  are hexadecimal digits, each byte is the value of its two digits.
\<close>

theorem hexToBytes_only_length_checked:
  "(hexToBytes hex = Inl InvalidHexLength \<longleftrightarrow> odd (length (strip0x_i hex)))
   \<and> (hexToBytes hex = Inl e \<longrightarrow> e = InvalidHexLength)
   \<and> (even (length (strip0x_i hex)) \<longrightarrow>
        hexToBytes hex
          = Inr (map (\<lambda>k. ToUint8 (parseInt16 (slice_str (strip0x_i hex) (k * 2) (k * 2 + 2))))
                     [0..<length (strip0x_i hex) div 2]))
   \<and> (even (length (strip0x_i hex)) \<and> isHexString (strip0x_i hex) \<longrightarrow>
        hexToBytes hex = Inr (hexDecode (strip0x_i hex)))"
proof -
  let ?n = "strip0x_i hex"
  have odd_fails: "hexToBytes hex = Inl InvalidHexLength \<longleftrightarrow> odd (length ?n)"
    by (simp add: hexToBytes_map)
  have only: "hexToBytes hex = Inl e \<longrightarrow> e = InvalidHexLength"
    by (simp add: hexToBytes_map)
  have pairs: "even (length ?n) \<longrightarrow>
        hexToBytes hex
          = Inr (map (\<lambda>k. ToUint8 (parseInt16 (slice_str ?n (k * 2) (k * 2 + 2))))
                     [0..<length ?n div 2])"
    by (simp add: hexToBytes_map)
  have digits: "even (length ?n) \<and> isHexString ?n \<longrightarrow> hexToBytes hex = Inr (hexDecode ?n)"
    using decode_pairs_hex [of ?n] by (simp add: hexToBytes_map)
  from odd_fails only pairs digits show ?thesis
    by blast
qed

theorem hexToBytes_only_length_checked_witness:
  "odd (length (strip0x_i ''0xABC'')) \<and> hexToBytes ''0xABC'' = Inl InvalidHexLength
   \<and> even (length (strip0x_i ''0x0aFf'')) \<and> isHexString (strip0x_i ''0x0aFf'')
   \<and> hexToBytes ''0x0aFf'' = Inr [10, 255]
   \<and> even (length (strip0x_i ''1g-a 7'')) \<and> hexToBytes ''1g-a 7'' = Inr [1, 246, 7]"
proof -
  have odd3: "odd (length (strip0x_i ''0xABC''))"
    by code_simp
  have even4: "even (length (strip0x_i ''0x0aFf''))" and hex4: "isHexString (strip0x_i ''0x0aFf'')"
    by code_simp+
  have dec4: "hexDecode (strip0x_i ''0x0aFf'') = [10, 255]"
    by code_simp
  have even6: "even (length (strip0x_i ''1g-a 7''))"
    by code_simp
  have dec6: "map (\<lambda>k. ToUint8 (parseInt16 (slice_str (strip0x_i ''1g-a 7'') (k * 2) (k * 2 + 2))))
                  [0..<length (strip0x_i ''1g-a 7'') div 2] = [1, 246, 7]"
    by code_simp
  from hexToBytes_only_length_checked [of "''0xABC''"] odd3
  have r3: "hexToBytes ''0xABC'' = Inl InvalidHexLength"
    by blast
  from hexToBytes_only_length_checked [of "''0x0aFf''"] even4 hex4
  have r4: "hexToBytes ''0x0aFf'' = Inr [10, 255]"
    unfolding dec4 by blast
  from hexToBytes_only_length_checked [of "''1g-a 7''"] even6
  have r6: "hexToBytes ''1g-a 7'' = Inr [1, 246, 7]"
    unfolding dec6 by blast
  from odd3 r3 even4 hex4 r4 even6 r6 show ?thesis
    by blast
qed

text \<open>Texts that are not hexadecimal decode all the same: no error is raised for
  \<^verbatim>\<open>zz\<close>, for \<^verbatim>\<open>1g\<close>, or for an owner of forty letters \<^verbatim>\<open>z\<close>.\<close>

theorem hexToBytes_malformed_decodes:
  "\<not> isHexString ''zz'' \<and> hexToBytes ''zz'' = Inr [0]
   \<and> \<not> isHexString ''1g'' \<and> hexToBytes ''1g'' = Inr [1]
   \<and> encodeAccountOwner (replicate 40 CHR ''z'') = Inr ([2, 0, 0, 0] @ replicate 20 0)"
  by code_simp

section \<open>Properties of the amount codec\<close>

subsection \<open>Segments\<close>

lemma split_dot_takeWhile:
  "split_dot s = takeWhile (\<lambda>c. c \<noteq> CHR ''.'') s
                 # (case dropWhile (\<lambda>c. c \<noteq> CHR ''.'') s of [] \<Rightarrow> [] | d # r \<Rightarrow> split_dot r)"
  by (induction s) auto

lemma first_segment:
  "(case split_dot s of [] \<Rightarrow> [] | a # rest \<Rightarrow> a) = integerDigits s"
  by (subst split_dot_takeWhile) (simp add: integerDigits_def)

lemma second_segment:
  "(case split_dot s of a # b # rest \<Rightarrow> b | _ \<Rightarrow> []) = integerDigits (fractionalDigits s)"
proof (cases "dropWhile (\<lambda>c. c \<noteq> CHR ''.'') s")
  case Nil
  show ?thesis
    by (subst split_dot_takeWhile) (simp add: integerDigits_def fractionalDigits_def Nil)
next
  case (Cons d r)
  have "split_dot s = takeWhile (\<lambda>c. c \<noteq> CHR ''.'') s # split_dot r"
    by (subst split_dot_takeWhile) (simp add: Cons)
  moreover have "split_dot r = takeWhile (\<lambda>c. c \<noteq> CHR ''.'') r
                 # (case dropWhile (\<lambda>c. c \<noteq> CHR ''.'') r of [] \<Rightarrow> [] | d # r \<Rightarrow> split_dot r)"
    by (rule split_dot_takeWhile)
  ultimately show ?thesis
    by (simp add: integerDigits_def fractionalDigits_def Cons)
qed

lemma parseAmountToU128_segments:
  "parseAmountToU128 input =
     (let raw = stripUnderscores (trim input)
      in if raw = [] then Inr 0
         else if take 1 raw = ''-'' then Inl NegativeAmount
         else amountOfSegments (integerDigits (stripPlus raw))
                (integerDigits (fractionalDigits (stripPlus raw))))"
  by (simp add: parseAmountToU128_def amountOfSegments_def Let_def AMOUNT_DECIMALS_def
      first_segment second_segment)

subsection \<open>Digit strings\<close>

lemma digitsValue_foldl:
  "foldl (\<lambda>acc c. acc * int radix + (case digitValue c of None \<Rightarrow> 0 | Some d \<Rightarrow> int d)) a s
   = a * int radix ^ length s + digitsValue radix s"
proof (induction s arbitrary: a)
  case Nil
  then show ?case by (simp add: digitsValue_def)
next
  case (Cons c cs)
  show ?case
    by (simp add: digitsValue_def Cons.IH [of "a * int radix + _"] Cons.IH [of "case digitValue c of None \<Rightarrow> 0 | Some d \<Rightarrow> int d"] algebra_simps)
qed

lemma digitsValue_Nil: "digitsValue radix [] = 0"
  by (simp add: digitsValue_def)

lemma digitsValue_Cons:
  "digitsValue radix (c # cs)
   = (case digitValue c of None \<Rightarrow> 0 | Some d \<Rightarrow> int d) * int radix ^ length cs + digitsValue radix cs"
  using digitsValue_foldl [of radix "case digitValue c of None \<Rightarrow> 0 | Some d \<Rightarrow> int d" cs]
  by (simp add: digitsValue_def)

lemma digitsValue_append:
  "digitsValue radix (xs @ ys)
   = digitsValue radix xs * int radix ^ length ys + digitsValue radix ys"
  by (induction xs) (simp_all add: digitsValue_Nil digitsValue_Cons algebra_simps power_add)

lemma digitsValue_nonneg: "0 \<le> digitsValue radix s"
  by (induction s) (simp_all add: digitsValue_Nil digitsValue_Cons split: option.splits)

lemma digitsValue_zeros: "digitsValue radix (replicate n CHR ''0'') = 0"
  by (induction n) (simp_all add: digitsValue_Nil digitsValue_Cons digitValue_zero)

lemma takeWhile_zeros:
  "takeWhile (\<lambda>c. c = CHR ''0'') s = replicate (length (takeWhile (\<lambda>c. c = CHR ''0'') s)) CHR ''0''"
  by (induction s) auto

lemma digitsValue_stripLeadingZeros:
  "digitsValue radix (stripLeadingZeros s) = digitsValue radix s"
proof -
  have "s = takeWhile (\<lambda>c. c = CHR ''0'') s @ stripLeadingZeros s"
    by (simp add: stripLeadingZeros_def)
  then have "digitsValue radix s
             = digitsValue radix (takeWhile (\<lambda>c. c = CHR ''0'') s) * int radix ^ length (stripLeadingZeros s)
               + digitsValue radix (stripLeadingZeros s)"
    using digitsValue_append [of radix "takeWhile (\<lambda>c. c = CHR ''0'') s" "stripLeadingZeros s"]
    by simp
  moreover have "digitsValue radix (takeWhile (\<lambda>c. c = CHR ''0'') s) = 0"
    using digitsValue_zeros [of radix "length (takeWhile (\<lambda>c. c = CHR ''0'') s)"]
      takeWhile_zeros [of s] by simp
  ultimately show ?thesis by simp
qed

lemma isDecimalString_append:
  "isDecimalString (xs @ ys) \<longleftrightarrow> isDecimalString xs \<and> isDecimalString ys"
  by (simp add: isDecimalString_def)

lemma isDecimalString_zeros: "isDecimalString (replicate n CHR ''0'')"
  by (simp add: isDecimalString_def list_all_iff isDigitOf_zero)

lemma isDecimalString_stripLeadingZeros:
  "isDecimalString s \<Longrightarrow> isDecimalString (stripLeadingZeros s)"
  by (auto simp: isDecimalString_def stripLeadingZeros_def list_all_iff dest: set_dropWhileD)

lemma decimal_no_space: "isDecimalString s \<Longrightarrow> \<forall>c\<in>set s. \<not> isWhiteSpace c"
  by (auto simp: isDecimalString_def list_all_iff dest!: isDigitOf_10_16 hex_digit_not_special(1))

lemma dropWhile_hd: "xs \<noteq> [] \<Longrightarrow> \<not> P (hd xs) \<Longrightarrow> dropWhile P xs = xs"
  by (cases xs) simp_all

lemma trim_no_space:
  assumes "s = [] \<or> (\<not> isWhiteSpace (hd s) \<and> \<not> isWhiteSpace (last s))"
  shows "trim s = s"
proof (cases "s = []")
  case True
  then show ?thesis by (simp add: trim_def)
next
  case False
  with assms have first_ok: "\<not> isWhiteSpace (hd s)" and last_ok: "\<not> isWhiteSpace (last s)"
    by simp_all
  have front: "dropWhile isWhiteSpace s = s"
    using False first_ok by (rule dropWhile_hd)
  have "rev s \<noteq> []" "\<not> isWhiteSpace (hd (rev s))"
    using False last_ok by (simp_all add: hd_rev)
  then have "dropWhile isWhiteSpace (rev s) = rev s"
    by (rule dropWhile_hd)
  with front show ?thesis
    by (simp add: trim_def)
qed

lemma strIntegerLiteral_decimal:
  assumes "isDecimalString s"
  shows "strIntegerLiteral s = radixLiteral 10 s"
proof (cases s rule: strIntegerLiteral.cases)
  case (1 a b rest)
  with assms have "isDigitOf 16 a" "isDigitOf 16 b" "isDigitOf 10 b"
    by (simp_all add: isDecimalString_def isDigitOf_10_16)
  then have "a \<noteq> CHR ''+''" "a \<noteq> CHR ''-''" "b \<noteq> CHR ''x''" "b \<noteq> CHR ''X''"
    "b \<noteq> CHR ''o''" "b \<noteq> CHR ''O''" "b \<noteq> CHR ''b''" "b \<noteq> CHR ''B''"
    by (auto simp: isDigitOf_16_range isDigitOf_10_range code_unit_literals)
  with 1 show ?thesis by simp
qed simp_all

lemma BigInt_decimal:
  assumes "isDecimalString s" and "s \<noteq> []"
  shows "BigInt s = Inr (digitsValue 10 s)"
proof -
  have "hd s \<in> set s" "last s \<in> set s"
    using assms(2) by simp_all
  then have "trim s = s"
    using decimal_no_space [OF assms(1)] by (intro trim_no_space) blast
  moreover have "radixLiteral 10 s = Some (digitsValue 10 s)"
    using assms by (simp add: radixLiteral_def isDecimalString_def)
  ultimately show ?thesis
    using assms by (simp add: BigInt_def StringToBigInt_def strIntegerLiteral_decimal)
qed

lemma amountOfSegments_decimal:
  assumes "isDecimalString i" and "isDecimalString f" and "length f \<le> 18"
  shows "amountOfSegments i f
         = Inr (digitsValue 10 i * 10 ^ 18 + digitsValue 10 f * 10 ^ (18 - length f))"
proof -
  let ?i0 = "if i = [] then ''0'' else i"
  let ?x = "?i0 @ padEnd f 18 CHR ''0''"
  let ?d = "if stripLeadingZeros ?x = [] then ''0'' else stripLeadingZeros ?x"
  have zero: "isDecimalString ''0''" "digitsValue 10 ''0'' = 0"
    using isDecimalString_zeros [of 1] digitsValue_zeros [of 10 1] by simp_all
  have i0: "isDecimalString ?i0" "digitsValue 10 ?i0 = digitsValue 10 i"
    using assms(1) zero by (simp_all add: digitsValue_Nil)
  have pad: "isDecimalString (padEnd f 18 CHR ''0'')" "length (padEnd f 18 CHR ''0'') = 18"
    "digitsValue 10 (padEnd f 18 CHR ''0'') = digitsValue 10 f * 10 ^ (18 - length f)"
    using assms(2,3)
    by (simp_all add: padEnd_def isDecimalString_append isDecimalString_zeros
        digitsValue_append digitsValue_zeros)
  have x: "isDecimalString ?x"
    "digitsValue 10 ?x = digitsValue 10 i * 10 ^ 18 + digitsValue 10 f * 10 ^ (18 - length f)"
    using i0 pad by (simp_all only: isDecimalString_append digitsValue_append) simp_all
  have d: "isDecimalString ?d" "?d \<noteq> []"
    using isDecimalString_stripLeadingZeros [OF x(1)] zero by simp_all
  have "digitsValue 10 ?d = digitsValue 10 ?x"
  proof (cases "stripLeadingZeros ?x = []")
    case True
    then have "digitsValue 10 ?x = digitsValue 10 []"
      using digitsValue_stripLeadingZeros [of 10 ?x] by simp
    with True zero show ?thesis
      by (simp add: digitsValue_Nil)
  next
    case False
    then show ?thesis
      by (simp add: digitsValue_stripLeadingZeros)
  qed
  with d have "BigInt ?d = Inr (digitsValue 10 ?x)"
    using BigInt_decimal [of ?d] by simp
  then show ?thesis
    using assms(3) x(2) by (simp add: amountOfSegments_def Let_def)
qed

subsection \<open>Decimal amounts\<close>

lemma point_shape:
  assumes "dropWhile (\<lambda>c. c \<noteq> CHR ''.'') s \<noteq> []"
  shows "dropWhile (\<lambda>c. c \<noteq> CHR ''.'') s = CHR ''.'' # fractionalDigits s"
proof -
  let ?P = "\<lambda>c. c \<noteq> CHR ''.''"
  from assms obtain d r where rest: "dropWhile ?P s = d # r"
    by (cases "dropWhile ?P s") simp_all
  have "\<not> ?P (hd (dropWhile ?P s))"
    using assms by (rule hd_dropWhile)
  then have "d = CHR ''.''"
    unfolding rest by simp
  then show ?thesis
    unfolding fractionalDigits_def rest by simp
qed

lemma amount_parts:
  "integerDigits s = s \<or> integerDigits s @ CHR ''.'' # fractionalDigits s = s"
proof (cases "dropWhile (\<lambda>c. c \<noteq> CHR ''.'') s = []")
  case True
  then have "takeWhile (\<lambda>c. c \<noteq> CHR ''.'') s = s"
    by (simp add: takeWhile_eq_all_conv)
  then show ?thesis
    by (simp add: integerDigits_def)
next
  case False
  have "takeWhile (\<lambda>c. c \<noteq> CHR ''.'') s @ dropWhile (\<lambda>c. c \<noteq> CHR ''.'') s = s"
    by simp
  then have "integerDigits s @ CHR ''.'' # fractionalDigits s = s"
    unfolding point_shape [OF False] integerDigits_def .
  then show ?thesis ..
qed

lemma decimal_amount_chars:
  assumes "isDecimalAmount s" and "c \<in> set s"
  shows "isDigitOf 10 c \<or> c = CHR ''.''"
proof -
  let ?P = "\<lambda>c. c \<noteq> CHR ''.''"
  from assms(1) have int_part: "\<And>x. x \<in> set (takeWhile ?P s) \<Longrightarrow> isDigitOf 10 x"
    and frac_part: "\<And>x. x \<in> set (fractionalDigits s) \<Longrightarrow> isDigitOf 10 x"
    by (simp_all add: isDecimalAmount_def isDecimalString_def list_all_iff integerDigits_def)
  have "c \<in> set (takeWhile ?P s @ dropWhile ?P s)"
    using assms(2) by simp
  then have "c \<in> set (takeWhile ?P s) \<or> c \<in> set (dropWhile ?P s)"
    by (simp only: set_append Un_iff)
  then show ?thesis
  proof
    assume "c \<in> set (takeWhile ?P s)"
    then show ?thesis
      by (simp add: int_part)
  next
    assume in_rest: "c \<in> set (dropWhile ?P s)"
    then have "dropWhile ?P s \<noteq> []"
      by (cases "dropWhile ?P s") simp_all
    then have rest: "dropWhile ?P s = CHR ''.'' # fractionalDigits s"
      by (rule point_shape)
    from in_rest have "c = CHR ''.'' \<or> c \<in> set (fractionalDigits s)"
      unfolding rest by simp
    then show ?thesis
      using frac_part by blast
  qed
qed

lemma point_not_special:
  "\<not> isWhiteSpace CHR ''.''" "CHR ''.'' \<noteq> CHR ''_''" "CHR ''.'' \<noteq> CHR ''-''"
  "CHR ''.'' \<noteq> CHR ''+''"
  by (simp_all add: isWhiteSpace_def code_unit_def)

lemma decimal_digit_plain:
  assumes "isDigitOf 10 c"
  shows "\<not> isWhiteSpace c" "c \<noteq> CHR ''_''" "c \<noteq> CHR ''-''" "c \<noteq> CHR ''+''" "c \<noteq> CHR ''.''"
  using hex_digit_not_special [OF isDigitOf_10_16 [OF assms]] by simp_all

lemma decimal_amount_plain:
  assumes "isDecimalAmount s" and "c \<in> set s"
  shows "\<not> isWhiteSpace c" "c \<noteq> CHR ''_''" "c \<noteq> CHR ''-''" "c \<noteq> CHR ''+''"
proof -
  from decimal_amount_chars [OF assms] consider "isDigitOf 10 c" | "c = CHR ''.''"
    by blast
  then have "\<not> isWhiteSpace c \<and> c \<noteq> CHR ''_'' \<and> c \<noteq> CHR ''-'' \<and> c \<noteq> CHR ''+''"
  proof cases
    case 1
    then show ?thesis
      by (simp add: decimal_digit_plain)
  next
    case 2
    then show ?thesis
      by (simp add: point_not_special)
  qed
  then show "\<not> isWhiteSpace c" "c \<noteq> CHR ''_''" "c \<noteq> CHR ''-''" "c \<noteq> CHR ''+''"
    by simp_all
qed

lemma decimal_amount_raw:
  assumes "isDecimalAmount s"
  shows "stripUnderscores (trim s) = s" "take 1 s \<noteq> ''-''" "stripPlus s = s"
proof -
  have "s = [] \<or> (\<not> isWhiteSpace (hd s) \<and> \<not> isWhiteSpace (last s))"
    using decimal_amount_plain(1) [OF assms] by (cases "s = []") simp_all
  then have "trim s = s"
    by (rule trim_no_space)
  moreover have "filter (\<lambda>c. c \<noteq> CHR ''_'') s = s"
    using decimal_amount_plain(2) [OF assms] by (simp add: filter_id_conv)
  ultimately show "stripUnderscores (trim s) = s"
    by (simp add: stripUnderscores_def)
  show "take 1 s \<noteq> ''-''"
    using decimal_amount_plain(3) [OF assms] by (cases s) auto
  show "stripPlus s = s"
    using decimal_amount_plain(4) [OF assms] by (cases s) auto
qed

lemma decimal_no_point: "isDecimalString f \<Longrightarrow> c \<in> set f \<Longrightarrow> c \<noteq> CHR ''.''"
  using decimal_digit_plain(5) [of c] by (simp add: isDecimalString_def list_all_iff)

lemma decimal_fraction_one_segment:
  "isDecimalString f \<Longrightarrow> integerDigits f = f"
  using decimal_no_point [of f] by (simp add: integerDigits_def takeWhile_eq_all_conv)

lemma parseAmountToU128_decimal:
  assumes "isDecimalAmount s"
  shows "parseAmountToU128 s
         = Inr (digitsValue 10 (integerDigits s) * 10 ^ 18
                + digitsValue 10 (fractionalDigits s) * 10 ^ (18 - length (fractionalDigits s)))"
proof (cases "s = []")
  case True
  then show ?thesis
    by (simp add: parseAmountToU128_segments stripUnderscores_def trim_def integerDigits_def
        fractionalDigits_def digitsValue_Nil)
next
  case False
  from assms have parts: "isDecimalString (integerDigits s)" "isDecimalString (fractionalDigits s)"
    "length (fractionalDigits s) \<le> 18"
    by (simp_all add: isDecimalAmount_def)
  show ?thesis
    using False decimal_amount_raw [OF assms] amountOfSegments_decimal [OF parts]
    by (simp add: parseAmountToU128_segments Let_def decimal_fraction_one_segment [OF parts(2)])
qed

lemma decimal_string_amount:
  assumes "isDecimalString ds"
  shows "integerDigits ds = ds" "fractionalDigits ds = []" "isDecimalAmount ds"
proof -
  show i: "integerDigits ds = ds"
    using assms by (rule decimal_fraction_one_segment)
  have "\<forall>c\<in>set ds. c \<noteq> CHR ''.''"
    using i by (simp add: integerDigits_def takeWhile_eq_all_conv)
  then have dw: "dropWhile (\<lambda>c. c \<noteq> CHR ''.'') ds = []"
    by simp
  show f: "fractionalDigits ds = []"
    by (simp add: fractionalDigits_def dw)
  show "isDecimalAmount ds"
    using assms by (simp add: isDecimalAmount_def i f isDecimalString_def)
qed

text \<open>
  C8, as the code has it. The amounts \<^verbatim>\<open>0\<close> and the empty string encode to 16 zero
  bytes. A string of decimal digits parses to the value of the digits times \<open>10^18\<close>; the
  16 encoded bytes are the little-endian bytes of that integer modulo \<open>2^128\<close>, and they
  hold the integer itself when it is below \<open>2^128\<close>. \<^verbatim>\<open>800000000\<close> parses to
  \<open>800000000 * 10^18\<close>.
\<close>

theorem encodeAmount_integer_strings:
  "(isDecimalString ds \<longrightarrow>
      parseAmountToU128 ds = Inr (digitsValue 10 ds * 10 ^ 18)
      \<and> encodeAmount ds = Inr (le_bytes 16 (digitsValue 10 ds * 10 ^ 18))
      \<and> le_value (le_bytes 16 (digitsValue 10 ds * 10 ^ 18))
          = digitsValue 10 ds * 10 ^ 18 mod 2 ^ 128
      \<and> (digitsValue 10 ds * 10 ^ 18 < 2 ^ 128 \<longrightarrow>
           le_value (le_bytes 16 (digitsValue 10 ds * 10 ^ 18)) = digitsValue 10 ds * 10 ^ 18))
   \<and> encodeAmount ''0'' = Inr (replicate 16 0)
   \<and> encodeAmount '''' = Inr (replicate 16 0)
   \<and> parseAmountToU128 ''800000000'' = Inr (800000000 * 10 ^ 18)
   \<and> encodeAmount ''800000000'' = Inr (le_bytes 16 (800000000 * 10 ^ 18))"
proof -
  have general: "parseAmountToU128 s = Inr (digitsValue 10 s * 10 ^ 18)
      \<and> encodeAmount s = Inr (le_bytes 16 (digitsValue 10 s * 10 ^ 18))" if "isDecimalString s" for s
    using parseAmountToU128_decimal [OF decimal_string_amount(3) [OF that]]
      decimal_string_amount(1,2) [OF that]
    by (simp add: encodeAmount_def encodeU128LE_le_bytes digitsValue_Nil)
  have modulo: "le_value (le_bytes 16 v) = v mod 2 ^ 128" for v
  proof -
    have "le_value (le_bytes 16 v) = v mod 256 ^ 16"
      by (rule le_value_le_bytes)
    then show ?thesis
      by simp
  qed
  have exact: "le_value (le_bytes 16 v) = v" if "0 \<le> v" and "v < 2 ^ 128" for v
    using that by (simp add: modulo)
  have nonneg: "0 \<le> digitsValue 10 ds * 10 ^ 18"
    using digitsValue_nonneg [of 10 ds] by simp
  have zero: "encodeAmount ''0'' = Inr (replicate 16 0)"
    by code_simp
  have empty: "encodeAmount '''' = Inr (replicate 16 0)"
    by code_simp
  have dec: "isDecimalString ''800000000''"
    by code_simp
  have val: "digitsValue 10 ''800000000'' = 800000000"
    by code_simp
  have example: "parseAmountToU128 ''800000000'' = Inr (800000000 * 10 ^ 18)
      \<and> encodeAmount ''800000000'' = Inr (le_bytes 16 (800000000 * 10 ^ 18))"
    using general [OF dec] by (simp only: val)
  have all_digits: "isDecimalString ds \<longrightarrow>
      parseAmountToU128 ds = Inr (digitsValue 10 ds * 10 ^ 18)
      \<and> encodeAmount ds = Inr (le_bytes 16 (digitsValue 10 ds * 10 ^ 18))
      \<and> le_value (le_bytes 16 (digitsValue 10 ds * 10 ^ 18))
          = digitsValue 10 ds * 10 ^ 18 mod 2 ^ 128
      \<and> (digitsValue 10 ds * 10 ^ 18 < 2 ^ 128 \<longrightarrow>
           le_value (le_bytes 16 (digitsValue 10 ds * 10 ^ 18)) = digitsValue 10 ds * 10 ^ 18)"
  proof (intro impI conjI)
    assume d: "isDecimalString ds"
    show "parseAmountToU128 ds = Inr (digitsValue 10 ds * 10 ^ 18)"
      using general [OF d] by (rule conjunct1)
    show "encodeAmount ds = Inr (le_bytes 16 (digitsValue 10 ds * 10 ^ 18))"
      using general [OF d] by (rule conjunct2)
    show "le_value (le_bytes 16 (digitsValue 10 ds * 10 ^ 18))
          = digitsValue 10 ds * 10 ^ 18 mod 2 ^ 128"
      by (rule modulo)
    show "le_value (le_bytes 16 (digitsValue 10 ds * 10 ^ 18)) = digitsValue 10 ds * 10 ^ 18"
      if "digitsValue 10 ds * 10 ^ 18 < 2 ^ 128"
      using nonneg that by (rule exact)
  qed
  from all_digits zero empty example show ?thesis
    by (intro conjI) (elim conjE; assumption)+
qed

theorem encodeAmount_integer_strings_witness:
  "isDecimalString ''42''
   \<and> parseAmountToU128 ''42'' = Inr 42000000000000000000
   \<and> encodeAmount ''42'' = Inr [0, 0, 104, 118, 121, 249, 221, 70, 2, 0, 0, 0, 0, 0, 0, 0]
   \<and> (42000000000000000000 :: int) < 2 ^ 128
   \<and> le_value [0, 0, 104, 118, 121, 249, 221, 70, 2, 0, 0, 0, 0, 0, 0, 0] = 42000000000000000000"
proof -
  have dec: "isDecimalString ''42''"
    by code_simp
  have val: "digitsValue 10 ''42'' * 10 ^ 18 = 42000000000000000000"
    by code_simp
  have bytes: "le_bytes 16 42000000000000000000
               = [0, 0, 104, 118, 121, 249, 221, 70, 2, 0, 0, 0, 0, 0, 0, 0]"
    by code_simp
  have small: "(42000000000000000000 :: int) < 2 ^ 128"
    by simp
  note at_42 = encodeAmount_integer_strings [THEN conjunct1, THEN mp, OF dec, unfolded val bytes]
  have parsed: "parseAmountToU128 ''42'' = Inr 42000000000000000000"
    by (rule at_42 [THEN conjunct1])
  have encoded: "encodeAmount ''42''
                 = Inr [0, 0, 104, 118, 121, 249, 221, 70, 2, 0, 0, 0, 0, 0, 0, 0]"
    by (rule at_42 [THEN conjunct2, THEN conjunct1])
  have exact: "le_value [0, 0, 104, 118, 121, 249, 221, 70, 2, 0, 0, 0, 0, 0, 0, 0]
               = 42000000000000000000"
    by (rule at_42 [THEN conjunct2, THEN conjunct2, THEN conjunct2, THEN mp, OF small])
  from dec parsed encoded small exact show ?thesis
    by (intro conjI)
qed

text \<open>A digit string whose value times \<open>10^18\<close> does not fit 128 bits encodes without
  error: the digits of \<open>2^128\<close> give the 16 zero bytes of the amount \<^verbatim>\<open>0\<close>.\<close>

theorem encodeAmount_integer_overflow:
  "isDecimalString ''340282366920938463463374607431768211456''
   \<and> parseAmountToU128 ''340282366920938463463374607431768211456''
     = Inr 340282366920938463463374607431768211456000000000000000000
   \<and> encodeAmount ''340282366920938463463374607431768211456'' = Inr (replicate 16 0)
   \<and> encodeAmount ''0'' = Inr (replicate 16 0)
   \<and> le_value (replicate 16 0) = 0"
  by code_simp

subsection \<open>Amounts with several points\<close>

lemma dropWhile_stop: "\<not> P x \<Longrightarrow> dropWhile P (a @ x # t) = dropWhile P a @ x # t"
  by (induction a) auto

lemma trim_point:
  "trim (a @ CHR ''.'' # t)
   = dropWhile isWhiteSpace a @ CHR ''.'' # rev (dropWhile isWhiteSpace (rev t))"
proof -
  have front: "dropWhile isWhiteSpace (a @ CHR ''.'' # t) = dropWhile isWhiteSpace a @ CHR ''.'' # t"
    by (rule dropWhile_stop) (rule point_not_special(1))
  have "dropWhile isWhiteSpace (rev t @ CHR ''.'' # rev (dropWhile isWhiteSpace a))
        = dropWhile isWhiteSpace (rev t) @ CHR ''.'' # rev (dropWhile isWhiteSpace a)"
    by (rule dropWhile_stop) (rule point_not_special(1))
  then show ?thesis
    by (simp add: trim_def front)
qed

lemma rtrim_point:
  "rev (dropWhile isWhiteSpace (rev (b @ CHR ''.'' # t)))
   = b @ CHR ''.'' # rev (dropWhile isWhiteSpace (rev t))"
proof -
  have "dropWhile isWhiteSpace (rev t @ CHR ''.'' # rev b)
        = dropWhile isWhiteSpace (rev t) @ CHR ''.'' # rev b"
    by (rule dropWhile_stop) (rule point_not_special(1))
  then show ?thesis
    by simp
qed

lemma rtrim_no_space:
  assumes "b = [] \<or> \<not> isWhiteSpace (last b)"
  shows "rev (dropWhile isWhiteSpace (rev b)) = b"
proof (cases "b = []")
  case True
  then show ?thesis by simp
next
  case False
  with assms have "rev b \<noteq> []" "\<not> isWhiteSpace (hd (rev b))"
    by (simp_all add: hd_rev)
  then have "dropWhile isWhiteSpace (rev b) = rev b"
    by (rule dropWhile_hd)
  then show ?thesis by simp
qed

lemma stripUnderscores_point:
  "stripUnderscores (u @ CHR ''.'' # v) = stripUnderscores u @ CHR ''.'' # stripUnderscores v"
  by (simp add: stripUnderscores_def)

lemma stripUnderscores_no_point:
  "CHR ''.'' \<notin> set u \<Longrightarrow> CHR ''.'' \<notin> set (stripUnderscores u)"
  by (simp add: stripUnderscores_def)

lemma dropWhile_no_point: "CHR ''.'' \<notin> set u \<Longrightarrow> CHR ''.'' \<notin> set (dropWhile P u)"
  by (auto dest: set_dropWhileD)

lemma stripPlus_point: "stripPlus (u @ CHR ''.'' # t) = stripPlus u @ CHR ''.'' # t"
  by (cases u) simp_all

lemma stripPlus_no_point: "CHR ''.'' \<notin> set u \<Longrightarrow> CHR ''.'' \<notin> set (stripPlus u)"
  by (cases u) simp_all

lemma take1_point: "take 1 (u @ CHR ''.'' # t) = ''-'' \<longleftrightarrow> take 1 u = ''-''"
  by (cases u) simp_all

lemma segments_of_point:
  assumes "CHR ''.'' \<notin> set u"
  shows "integerDigits (u @ CHR ''.'' # t) = u" "fractionalDigits (u @ CHR ''.'' # t) = t"
    "integerDigits u = u"
proof -
  have all: "\<forall>c\<in>set u. c \<noteq> CHR ''.''"
    using assms by blast
  then show "integerDigits (u @ CHR ''.'' # t) = u"
    by (simp add: integerDigits_def takeWhile_append2)
  from all have "dropWhile (\<lambda>c. c \<noteq> CHR ''.'') (u @ CHR ''.'' # t) = CHR ''.'' # t"
    by (simp add: dropWhile_append2)
  then show "fractionalDigits (u @ CHR ''.'' # t) = t"
    by (simp add: fractionalDigits_def)
  from all show "integerDigits u = u"
    by (simp add: integerDigits_def takeWhile_eq_all_conv)
qed

lemma parseAmountToU128_point:
  assumes "CHR ''.'' \<notin> set a"
  shows "parseAmountToU128 (a @ CHR ''.'' # t)
         = (if take 1 (stripUnderscores (dropWhile isWhiteSpace a)) = ''-''
            then Inl NegativeAmount
            else amountOfSegments (stripPlus (stripUnderscores (dropWhile isWhiteSpace a)))
                   (integerDigits (stripUnderscores (rev (dropWhile isWhiteSpace (rev t))))))"
proof -
  let ?A = "stripUnderscores (dropWhile isWhiteSpace a)"
  let ?T = "stripUnderscores (rev (dropWhile isWhiteSpace (rev t)))"
  have raw: "stripUnderscores (trim (a @ CHR ''.'' # t)) = ?A @ CHR ''.'' # ?T"
    by (simp only: trim_point stripUnderscores_point)
  have no_point: "CHR ''.'' \<notin> set (stripPlus ?A)"
    using assms by (intro stripPlus_no_point stripUnderscores_no_point dropWhile_no_point)
  show ?thesis
    unfolding parseAmountToU128_segments raw Let_def stripPlus_point take1_point
      segments_of_point(1,2) [OF no_point]
    by simp
qed

lemma second_segment_kept:
  assumes "CHR ''.'' \<notin> set b"
  shows "integerDigits (stripUnderscores
           (rev (dropWhile isWhiteSpace (rev (b @ CHR ''.'' # rest))))) = stripUnderscores b"
proof -
  have b': "CHR ''.'' \<notin> set (stripUnderscores b)"
    using assms by (rule stripUnderscores_no_point)
  show ?thesis
    by (simp only: rtrim_point stripUnderscores_point segments_of_point(1) [OF b'])
qed

lemma parseAmountToU128_rest_ignored:
  assumes "CHR ''.'' \<notin> set a" and "CHR ''.'' \<notin> set b"
  shows "parseAmountToU128 (a @ CHR ''.'' # b @ CHR ''.'' # rest)
         = parseAmountToU128 (a @ CHR ''.'' # b @ CHR ''.'' # [])"
  by (simp only: parseAmountToU128_point [OF assms(1)] second_segment_kept [OF assms(2)])

lemma parseAmountToU128_extra_segments:
  assumes "CHR ''.'' \<notin> set a" and "CHR ''.'' \<notin> set b"
    and "b = [] \<or> \<not> isWhiteSpace (last b)"
  shows "parseAmountToU128 (a @ CHR ''.'' # b @ CHR ''.'' # rest)
         = parseAmountToU128 (a @ CHR ''.'' # b)"
proof -
  have b': "CHR ''.'' \<notin> set (stripUnderscores b)"
    using assms(2) by (rule stripUnderscores_no_point)
  have "integerDigits (stripUnderscores (rev (dropWhile isWhiteSpace (rev b))))
        = stripUnderscores b"
    by (simp only: rtrim_no_space [OF assms(3)] segments_of_point(3) [OF b'])
  then show ?thesis
    by (simp only: parseAmountToU128_point [OF assms(1)] second_segment_kept [OF assms(2)])
qed

text \<open>
  C10, as the code has it. Only the first two point-separated segments are used and what
  follows the second point is ignored, whatever it is: an amount with further segments
  has the outcome, bytes or error, of the same text cut right after its second point.
  When the second segment does not end in white space, this is also the outcome of the
  first two segments joined by one point; \<^verbatim>\<open>1.2.3\<close> and \<^verbatim>\<open>1.2\<close> encode to the same 16
  bytes.
\<close>

theorem encodeAmount_extra_segments:
  "(CHR ''.'' \<notin> set a \<and> CHR ''.'' \<notin> set b
      \<longrightarrow> encodeAmount (a @ ''.'' @ b @ ''.'' @ rest) = encodeAmount (a @ ''.'' @ b @ ''.''))
   \<and> (CHR ''.'' \<notin> set a \<and> CHR ''.'' \<notin> set b \<and> (b = [] \<or> \<not> isWhiteSpace (last b))
      \<longrightarrow> encodeAmount (a @ ''.'' @ b @ ''.'' @ rest) = encodeAmount (a @ ''.'' @ b))
   \<and> encodeAmount ''1.2.3'' = Inr [0, 0, 120, 98, 164, 65, 167, 16, 0, 0, 0, 0, 0, 0, 0, 0]
   \<and> encodeAmount ''1.2'' = Inr [0, 0, 120, 98, 164, 65, 167, 16, 0, 0, 0, 0, 0, 0, 0, 0]"
proof -
  have cut: "encodeAmount (a @ ''.'' @ b @ ''.'' @ rest) = encodeAmount (a @ ''.'' @ b @ ''.'')"
    if "CHR ''.'' \<notin> set a \<and> CHR ''.'' \<notin> set b"
    using that parseAmountToU128_rest_ignored [of a b rest]
    by (simp add: encodeAmount_def)
  have joined: "encodeAmount (a @ ''.'' @ b @ ''.'' @ rest) = encodeAmount (a @ ''.'' @ b)"
    if "CHR ''.'' \<notin> set a \<and> CHR ''.'' \<notin> set b \<and> (b = [] \<or> \<not> isWhiteSpace (last b))"
    using that parseAmountToU128_extra_segments [of a b rest]
    by (simp add: encodeAmount_def)
  have three: "encodeAmount ''1.2.3'' = Inr [0, 0, 120, 98, 164, 65, 167, 16, 0, 0, 0, 0, 0, 0, 0, 0]"
    by code_simp
  have two: "encodeAmount ''1.2'' = Inr [0, 0, 120, 98, 164, 65, 167, 16, 0, 0, 0, 0, 0, 0, 0, 0]"
    by code_simp
  from cut joined three two show ?thesis
    by (intro conjI impI)
qed

theorem encodeAmount_extra_segments_witness:
  "CHR ''.'' \<notin> set ''7'' \<and> CHR ''.'' \<notin> set ''5'' \<and> (''5'' = [] \<or> \<not> isWhiteSpace (last ''5''))
   \<and> encodeAmount (''7'' @ ''.'' @ ''5'' @ ''.'' @ ''9.9'') = encodeAmount (''7'' @ ''.'' @ ''5'' @ ''.'')
   \<and> encodeAmount (''7'' @ ''.'' @ ''5'' @ ''.'' @ ''9.9'') = encodeAmount (''7'' @ ''.'' @ ''5'')
   \<and> encodeAmount (''7'' @ ''.'' @ ''5'')
     = Inr [0, 0, 110, 103, 67, 90, 21, 104, 0, 0, 0, 0, 0, 0, 0, 0]
   \<and> CHR ''.'' \<notin> set ''2 ''
   \<and> encodeAmount (''1'' @ ''.'' @ ''2 '' @ ''.'' @ ''3'') = encodeAmount (''1'' @ ''.'' @ ''2 '' @ ''.'')
   \<and> encodeAmount (''1'' @ ''.'' @ ''2 '' @ ''.'') = Inl InvalidAmountFormat"
proof -
  have points: "CHR ''.'' \<notin> set ''7'' \<and> CHR ''.'' \<notin> set ''5''"
    by code_simp
  have hyp: "CHR ''.'' \<notin> set ''7'' \<and> CHR ''.'' \<notin> set ''5''
             \<and> (''5'' = [] \<or> \<not> isWhiteSpace (last ''5''))"
    by code_simp
  have spaced: "CHR ''.'' \<notin> set ''1'' \<and> CHR ''.'' \<notin> set ''2 ''"
    by code_simp
  have cut: "encodeAmount (''7'' @ ''.'' @ ''5'' @ ''.'' @ ''9.9'')
             = encodeAmount (''7'' @ ''.'' @ ''5'' @ ''.'')"
    by (rule encodeAmount_extra_segments [THEN conjunct1, THEN mp, OF points])
  have same: "encodeAmount (''7'' @ ''.'' @ ''5'' @ ''.'' @ ''9.9'') = encodeAmount (''7'' @ ''.'' @ ''5'')"
    by (rule encodeAmount_extra_segments [THEN conjunct2, THEN conjunct1, THEN mp, OF hyp])
  have bytes: "encodeAmount (''7'' @ ''.'' @ ''5'')
               = Inr [0, 0, 110, 103, 67, 90, 21, 104, 0, 0, 0, 0, 0, 0, 0, 0]"
    by code_simp
  have cut_spaced: "encodeAmount (''1'' @ ''.'' @ ''2 '' @ ''.'' @ ''3'')
                    = encodeAmount (''1'' @ ''.'' @ ''2 '' @ ''.'')"
    by (rule encodeAmount_extra_segments [THEN conjunct1, THEN mp, OF spaced])
  have fails: "encodeAmount (''1'' @ ''.'' @ ''2 '' @ ''.'') = Inl InvalidAmountFormat"
    by code_simp
  have p1: "CHR ''.'' \<notin> set ''7''" and p2: "CHR ''.'' \<notin> set ''5''"
    and p3: "''5'' = [] \<or> \<not> isWhiteSpace (last ''5'')"
    using hyp by (rule conjunct1, rule conjunct2 [THEN conjunct1], rule conjunct2 [THEN conjunct2])
  have p4: "CHR ''.'' \<notin> set ''2 ''"
    using spaced by (rule conjunct2)
  from p1 p2 p3 cut same bytes p4 cut_spaced fails show ?thesis
    by (intro conjI)
qed

text \<open>White space that ends the second segment is kept when a further point follows:
  \<^verbatim>\<open>1.2 .3\<close> has two points and fails, although its first two segments joined by one
  point, \<^verbatim>\<open>1.2 \<close>, encode.\<close>

theorem encodeAmount_second_segment_space:
  "count_list ''1.2 .3'' CHR ''.'' = 2
   \<and> encodeAmount ''1.2 .3'' = Inl InvalidAmountFormat
   \<and> encodeAmount ''1.2 '' = Inr [0, 0, 120, 98, 164, 65, 167, 16, 0, 0, 0, 0, 0, 0, 0, 0]"
  by code_simp

subsection \<open>Decimal output\<close>

lemma digitChar_digit: "isDigitOf 10 c \<Longrightarrow> digitChar (code_unit c - 48) = c"
  by (simp add: digitChar_def isDigitOf_10_range code_unit_def)

lemma digitChar_zero: "digitChar 0 = CHR ''0''"
  by code_simp

lemma toString10_small: "n < 10 \<Longrightarrow> toString10 n = [digitChar (nat n)]"
  by (subst toString10.simps) simp

lemma toString10_step:
  assumes "0 < n" and "0 \<le> d" and "d < 10"
  shows "toString10 (n * 10 + d) = toString10 n @ [digitChar (nat d)]"
proof -
  have "\<not> n * 10 + d < 10" "(n * 10 + d) div 10 = n" "(n * 10 + d) mod 10 = d"
    using assms by simp_all
  then show ?thesis
    by (subst toString10.simps) simp
qed

lemma digitsValue_snoc_decimal:
  "isDigitOf 10 c \<Longrightarrow>
   digitsValue 10 (ds @ [c]) = digitsValue 10 ds * 10 + int (code_unit c - 48)"
  by (simp add: digitsValue_append digitsValue_Cons digitsValue_Nil digitValue_decimal)

lemma stripLeadingZeros_Nil_iff:
  "stripLeadingZeros ds = [] \<longleftrightarrow> (\<forall>c\<in>set ds. c = CHR ''0'')"
  by (simp add: stripLeadingZeros_def)

lemma stripLeadingZeros_append:
  "stripLeadingZeros (xs @ ys)
   = (if stripLeadingZeros xs = [] then stripLeadingZeros ys else stripLeadingZeros xs @ ys)"
  by (simp add: stripLeadingZeros_def dropWhile_append)

lemma digitsValue_pos:
  assumes "isDecimalString ds" and "stripLeadingZeros ds \<noteq> []"
  shows "0 < digitsValue 10 ds"
proof -
  let ?Z = "\<lambda>c. c = CHR ''0''"
  from assms(2) obtain x xs where t: "dropWhile ?Z ds = x # xs"
    by (cases "dropWhile ?Z ds") (simp_all add: stripLeadingZeros_def)
  have ne: "dropWhile ?Z ds \<noteq> []"
    unfolding t by simp
  have "\<not> ?Z (hd (dropWhile ?Z ds))"
    using ne by (rule hd_dropWhile)
  then have nz: "x \<noteq> CHR ''0''"
    unfolding t by simp
  have "x \<in> set (dropWhile ?Z ds)"
    unfolding t by simp
  then have "x \<in> set ds"
    by (rule set_dropWhileD)
  then have dig: "isDigitOf 10 x"
    using assms(1) by (simp add: isDecimalString_def list_all_iff)
  have "code_unit x \<noteq> 48"
    using nz code_unit_inject [of x "CHR ''0''"] by (auto simp: code_unit_literals)
  then have "1 \<le> int (code_unit x - 48)"
    using dig by (simp add: isDigitOf_10_range)
  then obtain k :: int where k: "k = int (code_unit x - 48)" "1 \<le> k"
    by simp
  have "1 \<le> (10 :: int) ^ length xs"
    by simp
  with k(2) have "1 * 1 \<le> k * 10 ^ length xs"
    by (intro mult_mono) simp_all
  moreover have "digitsValue 10 (x # xs) = k * 10 ^ length xs + digitsValue 10 xs"
    unfolding k(1) by (simp add: digitsValue_Cons digitValue_decimal [OF dig])
  ultimately have "0 < digitsValue 10 (x # xs)"
    using digitsValue_nonneg [of 10 xs] by linarith
  then show ?thesis
    using digitsValue_stripLeadingZeros [of 10 ds] t by (simp add: stripLeadingZeros_def)
qed

lemma toString10_digits:
  "isDecimalString ds \<Longrightarrow>
   toString10 (digitsValue 10 ds)
     = (if stripLeadingZeros ds = [] then ''0'' else stripLeadingZeros ds)"
proof (induction ds rule: rev_induct)
  case Nil
  show ?case
    by (simp add: digitsValue_Nil toString10_small digitChar_zero stripLeadingZeros_def)
next
  case (snoc c ds)
  from snoc.prems have ds: "isDecimalString ds" and c: "isDigitOf 10 c"
    by (simp_all add: isDecimalString_def)
  let ?d = "int (code_unit c - 48)"
  have d: "0 \<le> ?d" "?d < 10" "digitChar (nat ?d) = c"
  proof -
    show "0 \<le> ?d" by simp
    show "?d < 10" using c by (simp add: isDigitOf_10_range)
    show "digitChar (nat ?d) = c" by (simp only: nat_int digitChar_digit [OF c])
  qed
  have val: "digitsValue 10 (ds @ [c]) = digitsValue 10 ds * 10 + ?d"
    using c by (rule digitsValue_snoc_decimal)
  show ?case
  proof (cases "stripLeadingZeros ds = []")
    case True
    then have "digitsValue 10 ds = 0"
      using digitsValue_stripLeadingZeros [of 10 ds] by (simp add: digitsValue_Nil)
    then have "toString10 (digitsValue 10 (ds @ [c])) = [c]"
      using d by (simp add: val toString10_small)
    moreover have "stripLeadingZeros (ds @ [c]) = (if c = CHR ''0'' then [] else [c])"
      using True by (simp add: stripLeadingZeros_append) (simp add: stripLeadingZeros_def)
    ultimately show ?thesis
      by simp
  next
    case False
    then have "0 < digitsValue 10 ds"
      using ds by (intro digitsValue_pos)
    then have "toString10 (digitsValue 10 (ds @ [c])) = toString10 (digitsValue 10 ds) @ [c]"
      using d by (simp add: val toString10_step)
    then show ?thesis
      using False snoc.IH [OF ds] by (simp add: stripLeadingZeros_append)
  qed
qed

subsection \<open>Decoding an amount\<close>

lemma zeros_then_rest:
  "replicate (length s - length (stripLeadingZeros s)) CHR ''0'' @ stripLeadingZeros s = s"
proof -
  let ?Z = "\<lambda>c. c = CHR ''0''"
  have whole: "takeWhile ?Z s @ dropWhile ?Z s = s"
    by simp
  then have "length (takeWhile ?Z s) + length (dropWhile ?Z s) = length s"
    by (metis length_append)
  then have "length s - length (dropWhile ?Z s) = length (takeWhile ?Z s)"
    by simp
  then have "replicate (length s - length (dropWhile ?Z s)) CHR ''0'' = takeWhile ?Z s"
    using takeWhile_zeros [of s] by simp
  then show ?thesis
    unfolding stripLeadingZeros_def using whole by simp
qed

lemma length_stripLeadingZeros: "length (stripLeadingZeros s) \<le> length s"
  by (simp add: stripLeadingZeros_def length_dropWhile_le)

lemma padStart_fraction:
  assumes "length F = 18"
  shows "padStart (if stripLeadingZeros F = [] then ''0'' else stripLeadingZeros F) 19 CHR ''0''
         = CHR ''0'' # F"
proof (cases "stripLeadingZeros F = []")
  case True
  with zeros_then_rest [of F] assms have "F = replicate 18 CHR ''0''"
    by simp
  moreover have "replicate 18 CHR ''0'' @ ''0'' = CHR ''0'' # replicate 18 CHR ''0''"
    by (simp add: replicate_append_same)
  ultimately show ?thesis
    using True by (simp add: padStart_def)
next
  case False
  let ?T = "stripLeadingZeros F"
  have "length ?T \<le> 18"
    using length_stripLeadingZeros [of F] assms by simp
  then have "19 - length ?T = Suc (length F - length ?T)"
    using assms by simp
  then have "replicate (19 - length ?T) CHR ''0'' @ ?T
             = CHR ''0'' # (replicate (length F - length ?T) CHR ''0'' @ ?T)"
    by simp
  then show ?thesis
    using False by (simp add: padStart_def zeros_then_rest)
qed

lemma stripTrailingZeros_point:
  "stripTrailingZeros (J @ CHR ''.'' # F) = J @ CHR ''.'' # stripTrailingZeros F"
proof -
  have "dropWhile (\<lambda>c. c = CHR ''0'') (rev F @ CHR ''.'' # rev J)
        = dropWhile (\<lambda>c. c = CHR ''0'') (rev F) @ CHR ''.'' # rev J"
    by (rule dropWhile_stop) simp
  then show ?thesis
    by (simp add: stripTrailingZeros_def)
qed

lemma dropWhile_zeros:
  "dropWhile (\<lambda>c. c = CHR ''0'') (replicate k CHR ''0'' @ ys) = dropWhile (\<lambda>c. c = CHR ''0'') ys"
  by (induction k) simp_all

lemma stripTrailingZeros_padEnd:
  "stripTrailingZeros (padEnd f n CHR ''0'') = stripTrailingZeros f"
  by (simp add: stripTrailingZeros_def padEnd_def dropWhile_zeros)

lemma stripTrailingZeros_decimal:
  assumes "isDecimalString f" and "stripTrailingZeros f \<noteq> []"
  shows "last (stripTrailingZeros f) \<noteq> CHR ''.''"
proof -
  have "last (stripTrailingZeros f) \<in> set (stripTrailingZeros f)"
    using assms(2) by (rule last_in_set)
  then have "last (stripTrailingZeros f) \<in> set (dropWhile (\<lambda>c. c = CHR ''0'') (rev f))"
    by (simp add: stripTrailingZeros_def)
  then have "last (stripTrailingZeros f) \<in> set (rev f)"
    by (rule set_dropWhileD)
  then have "last (stripTrailingZeros f) \<in> set f"
    by simp
  with assms(1) show ?thesis
    by (rule decimal_no_point)
qed

lemma stripTrailingPoint_fraction:
  assumes "G = [] \<or> last G \<noteq> CHR ''.''"
  shows "stripTrailingPoint (J @ CHR ''.'' # G) = J @ (if G = [] then [] else CHR ''.'' # G)"
  using assms by (auto simp: stripTrailingPoint_def)

lemma decodeAmount_digits:
  assumes "isDecimalString i" and "isDecimalString F" and "length F = 18"
  shows "decodeAmount (digitsValue 10 (i @ F))
         = (if stripLeadingZeros i = [] then ''0'' else stripLeadingZeros i)
           @ (if stripTrailingZeros F = [] then [] else CHR ''.'' # stripTrailingZeros F)"
proof -
  let ?I = "stripLeadingZeros i"
  let ?J = "if ?I = [] then ''0'' else ?I"
  let ?G = "stripTrailingZeros F"
  have dec: "isDecimalString (i @ F)"
    using assms by (simp add: isDecimalString_append)
  have written: "toString10 (digitsValue 10 (i @ F))
              = (if stripLeadingZeros (i @ F) = [] then ''0'' else stripLeadingZeros (i @ F))"
    using dec by (rule toString10_digits)
  have padded: "padStart (toString10 (digitsValue 10 (i @ F))) 19 CHR ''0'' = ?J @ F"
  proof (cases "?I = []")
    case True
    then have same: "stripLeadingZeros (i @ F) = stripLeadingZeros F"
      by (simp add: stripLeadingZeros_append)
    have "padStart (toString10 (digitsValue 10 (i @ F))) 19 CHR ''0'' = CHR ''0'' # F"
      unfolding written same by (rule padStart_fraction [OF assms(3)])
    then show ?thesis
      using True by simp
  next
    case False
    then have "stripLeadingZeros (i @ F) = ?I @ F"
      by (simp add: stripLeadingZeros_append)
    moreover have "19 - length (?I @ F) = 0"
      using False assms(3) by (cases ?I) simp_all
    ultimately show ?thesis
      using False by (simp add: written padStart_def)
  qed
  have len: "length (?J @ F) - 18 = length ?J"
    using assms(3) by simp
  have "decodeAmount (digitsValue 10 (i @ F))
        = stripTrailingPoint (stripTrailingZeros (?J @ CHR ''.'' # F))"
    unfolding decodeAmount_def Let_def padded len by simp
  also have "\<dots> = stripTrailingPoint (?J @ CHR ''.'' # ?G)"
    by (simp only: stripTrailingZeros_point)
  also have "\<dots> = ?J @ (if ?G = [] then [] else CHR ''.'' # ?G)"
    using stripTrailingZeros_decimal [OF assms(2)]
    by (intro stripTrailingPoint_fraction) blast
  finally show ?thesis .
qed

lemma parsed_amount_digits:
  assumes "length f \<le> 18"
  shows "digitsValue 10 i * 10 ^ 18 + digitsValue 10 f * 10 ^ (18 - length f)
         = digitsValue 10 (i @ padEnd f 18 CHR ''0'')"
  using assms by (simp add: digitsValue_append padEnd_def digitsValue_zeros)

lemma decodeAmount_parsed:
  assumes "isDecimalAmount s"
  shows "\<exists>v. parseAmountToU128 s = Inr v \<and> 0 \<le> v \<and> decodeAmount v = normalizedAmount s"
proof -
  let ?i = "integerDigits s" and ?f = "fractionalDigits s"
  let ?F = "padEnd ?f 18 CHR ''0''"
  from assms have parts: "isDecimalString ?i" "isDecimalString ?f" "length ?f \<le> 18"
    by (simp_all add: isDecimalAmount_def)
  have F: "isDecimalString ?F" "length ?F = 18"
    using parts(2,3) by (simp_all add: padEnd_def isDecimalString_append isDecimalString_zeros)
  have "parseAmountToU128 s = Inr (digitsValue 10 (?i @ ?F))"
    using parseAmountToU128_decimal [OF assms] parsed_amount_digits [OF parts(3), of ?i]
    by simp
  moreover have "0 \<le> digitsValue 10 (?i @ ?F)"
    by (rule digitsValue_nonneg)
  moreover have "decodeAmount (digitsValue 10 (?i @ ?F)) = normalizedAmount s"
    unfolding decodeAmount_digits [OF parts(1) F] stripTrailingZeros_padEnd
    by (simp add: normalizedAmount_def Let_def)
  ultimately show ?thesis
    by blast
qed

text \<open>
  C5, as the code has it. For a decimal amount string (digits, at most one point, at most
  18 digits after it) the parser returns a non-negative integer whose decoding is the
  normal form of the string. When that integer is below \<open>2^128\<close>, the 16 encoded bytes
  hold it, and decoding the integer read back from the bytes gives the normal form. The
  encoder does not check the bound: a larger integer is cut to its low 128 bits.
\<close>

theorem amount_round_trip:
  assumes "isDecimalAmount s"
  shows "\<exists>v. parseAmountToU128 s = Inr v \<and> 0 \<le> v
             \<and> decodeAmount v = normalizedAmount s
             \<and> (v < 2 ^ 128 \<longrightarrow>
                  (\<exists>bytes. encodeAmount s = Inr bytes \<and> le_value bytes = v
                     \<and> decodeAmount (le_value bytes) = normalizedAmount s))"
proof -
  from decodeAmount_parsed [OF assms] obtain v
    where v: "parseAmountToU128 s = Inr v" "0 \<le> v" "decodeAmount v = normalizedAmount s"
    by blast
  have "\<exists>bytes. encodeAmount s = Inr bytes \<and> le_value bytes = v
          \<and> decodeAmount (le_value bytes) = normalizedAmount s" if small: "v < 2 ^ 128"
  proof -
    have "le_value (le_bytes 16 v) = v mod 256 ^ 16"
      by (rule le_value_le_bytes)
    also have "\<dots> = v"
      using v(2) small by simp
    finally have "le_value (le_bytes 16 v) = v" .
    then show ?thesis
      using v(1,3) by (simp add: encodeAmount_def encodeU128LE_le_bytes)
  qed
  with v show ?thesis
    by blast
qed

theorem amount_round_trip_witness:
  "isDecimalAmount ''007.500''
   \<and> parseAmountToU128 ''007.500'' = Inr 7500000000000000000
   \<and> encodeAmount ''007.500'' = Inr [0, 0, 110, 103, 67, 90, 21, 104, 0, 0, 0, 0, 0, 0, 0, 0]
   \<and> decodeAmount (le_value [0, 0, 110, 103, 67, 90, 21, 104, 0, 0, 0, 0, 0, 0, 0, 0])
     = normalizedAmount ''007.500''
   \<and> normalizedAmount ''007.500'' = ''7.5''"
proof -
  have valid: "isDecimalAmount ''007.500''"
    by code_simp
  have parsed: "parseAmountToU128 ''007.500'' = Inr 7500000000000000000"
    by code_simp
  have encoded: "encodeAmount ''007.500''
                 = Inr [0, 0, 110, 103, 67, 90, 21, 104, 0, 0, 0, 0, 0, 0, 0, 0]"
    by code_simp
  have normal: "normalizedAmount ''007.500'' = ''7.5''"
    by code_simp
  from amount_round_trip [OF valid] obtain v
    where v: "parseAmountToU128 ''007.500'' = Inr v"
      and bytes_ok: "v < 2 ^ 128 \<longrightarrow>
                  (\<exists>bytes. encodeAmount ''007.500'' = Inr bytes \<and> le_value bytes = v
                     \<and> decodeAmount (le_value bytes) = normalizedAmount ''007.500'')"
    by blast
  from v parsed have "v = 7500000000000000000"
    by simp
  then have "v < 2 ^ 128"
    by simp
  with bytes_ok obtain bytes
    where "encodeAmount ''007.500'' = Inr bytes"
      and "decodeAmount (le_value bytes) = normalizedAmount ''007.500''"
    by blast
  with encoded
  have "decodeAmount (le_value [0, 0, 110, 103, 67, 90, 21, 104, 0, 0, 0, 0, 0, 0, 0, 0])
        = normalizedAmount ''007.500''"
    by simp
  with valid parsed encoded normal show ?thesis
    by (intro conjI)
qed

text \<open>An amount whose unscaled value does not fit 128 bits encodes without error, and
  the bytes decode to another amount.\<close>

theorem amount_round_trip_overflow:
  "isDecimalAmount ''340282366920938463464''
   \<and> parseAmountToU128 ''340282366920938463464'' = Inr 340282366920938463464000000000000000000
   \<and> encodeAmount ''340282366920938463464''
     = Inr [0, 0, 160, 50, 58, 215, 173, 8, 0, 0, 0, 0, 0, 0, 0, 0]
   \<and> decodeAmount (le_value [0, 0, 160, 50, 58, 215, 173, 8, 0, 0, 0, 0, 0, 0, 0, 0])
     = ''0.625392568231788544''
   \<and> normalizedAmount ''340282366920938463464'' = ''340282366920938463464''"
  by code_simp

end
